theory Spec2Isabelle
  imports Complex_Main "HOL-Library.Word"
begin

unbundle bit_operations_syntax

section \<open>Values, strings and errors\<close>

text \<open>
  A Python \<open>bytes\<close> object is the list of its byte values, a Python \<open>str\<close> is the list of
  its code points, and the strings of binary digits that the steganography engines pass
  around (\<open>'1010101010101010'\<close>) are HOL strings over the characters \<open>0\<close> and \<open>1\<close>.
\<close>

type_synonym bytes = "nat list"
type_synonym str = "nat list"
type_synonym bitstring = string

text \<open>
  Every exception the modelled code can raise is a value. \<open>MessageTooLarge cap len\<close> is the
  \<open>ValueError\<close> of the capacity check, whose message holds both numbers;
  \<open>EndMarkerNotFound\<close> is the \<open>ValueError\<close> of the extraction functions;
  \<open>EncryptionFailed\<close> and \<open>DecryptionFailed\<close> are the exceptions into which
  \<open>encryptor.py\<close> wraps whatever went wrong. \<open>OverflowError\<close> is what NumPy raises
  for a Python integer that does not fit the type of an array element, \<open>WaveError\<close> is
  \<open>wave.Error\<close>, and \<open>PrintError\<close> stands for whatever \<open>print\<close> raises when standard
  output cannot take the line.
\<close>

datatype error =
    UnicodeEncodeError
  | UnicodeDecodeError
  | ValueError
  | BinasciiError
  | FileError
  | MessageTooLarge nat nat
  | EndMarkerNotFound
  | EncryptionFailed error
  | DecryptionFailed error
  | ZeroDivisionError
  | OverflowError
  | WaveError
  | PrintError
  | ModelNotLoaded
  | ModelError string
  | ConversionFailed error

definition is_bytes :: "bytes \<Rightarrow> bool" where
  "is_bytes bs = list_all (\<lambda>b. b < 256) bs"

text \<open>
  A \<open>str\<close> holds code points below \<open>0x110000\<close>. The surrogates \<open>D800..DFFF\<close> can sit in a
  \<open>str\<close> but are not Unicode scalar values and have no UTF-8 encoding.
\<close>

definition is_surrogate :: "nat \<Rightarrow> bool" where
  "is_surrogate cp = (0xD800 \<le> cp \<and> cp \<le> 0xDFFF)"

definition unicode_text :: "str \<Rightarrow> bool" where
  "unicode_text t = list_all (\<lambda>cp. cp < 0x110000 \<and> \<not> is_surrogate cp) t"

section \<open>UTF-8 as Python's codec implements it\<close>

text \<open>\<open>str.encode('utf-8')\<close>: strict, so a surrogate raises \<open>UnicodeEncodeError\<close>.\<close>

definition utf8_encode_char :: "nat \<Rightarrow> error + bytes" where
  "utf8_encode_char cp =
     (if cp < 0x80 then Inr [cp]
      else if cp < 0x800 then Inr [0xC0 + cp div 64, 0x80 + cp mod 64]
      else if cp < 0x10000 then
        (if is_surrogate cp then Inl UnicodeEncodeError
         else Inr [0xE0 + cp div 4096, 0x80 + (cp div 64) mod 64, 0x80 + cp mod 64])
      else if cp < 0x110000 then
        Inr [0xF0 + cp div 262144, 0x80 + (cp div 4096) mod 64,
             0x80 + (cp div 64) mod 64, 0x80 + cp mod 64]
      else Inl UnicodeEncodeError)"

fun utf8_encode :: "str \<Rightarrow> error + bytes" where
  "utf8_encode [] = Inr []"
| "utf8_encode (cp # cps) =
     (case utf8_encode_char cp of
        Inl e \<Rightarrow> Inl e
      | Inr bs \<Rightarrow> (case utf8_encode cps of Inl e \<Rightarrow> Inl e | Inr rest \<Rightarrow> Inr (bs @ rest)))"

text \<open>
  \<open>bytes.decode('utf-8')\<close>. One step of the decoder looks at the bytes from the current
  position and either yields a code point with the number of bytes it took, or reports an
  error: an invalid start byte (the error covers that byte), an invalid continuation byte
  (the error covers the \<open>n\<close> bytes before it), or an unexpected end of data (the error
  covers everything up to the end). Overlong forms, surrogates and values above
  \<open>10FFFF\<close> are rejected at the second byte.
\<close>

definition is_continuation_byte :: "nat \<Rightarrow> bool" where
  "is_continuation_byte ch = (0x80 \<le> ch \<and> ch < 0xC0)"

datatype utf8_step = Decoded nat nat | InvalidStart | InvalidContinuation nat | UnexpectedEnd

fun utf8_decode_step :: "bytes \<Rightarrow> utf8_step" where
  "utf8_decode_step [] = UnexpectedEnd"
| "utf8_decode_step (ch # s) =
     (if ch < 0x80 then Decoded ch 1
      else if ch < 0xE0 then
        (if ch < 0xC2 then InvalidStart
         else case s of
             [] \<Rightarrow> UnexpectedEnd
           | ch2 # _ \<Rightarrow>
               if \<not> is_continuation_byte ch2 then InvalidContinuation 1
               else Decoded (ch * 64 + ch2 - (0xC0 * 64 + 0x80)) 2)
      else if ch < 0xF0 then
        (case s of
           [] \<Rightarrow> UnexpectedEnd
         | [ch2] \<Rightarrow>
             if \<not> is_continuation_byte ch2 \<or> (if ch2 < 0xA0 then ch = 0xE0 else ch = 0xED)
             then InvalidContinuation 1 else UnexpectedEnd
         | ch2 # ch3 # _ \<Rightarrow>
             if \<not> is_continuation_byte ch2 then InvalidContinuation 1
             else if ch = 0xE0 \<and> ch2 < 0xA0 then InvalidContinuation 1
             else if ch = 0xED \<and> ch2 \<ge> 0xA0 then InvalidContinuation 1
             else if \<not> is_continuation_byte ch3 then InvalidContinuation 2
             else Decoded (ch * 4096 + ch2 * 64 + ch3 - (0xE0 * 4096 + 0x80 * 64 + 0x80)) 3)
      else if ch < 0xF5 then
        (case s of
           [] \<Rightarrow> UnexpectedEnd
         | [ch2] \<Rightarrow>
             if \<not> is_continuation_byte ch2 \<or> (if ch2 < 0x90 then ch = 0xF0 else ch = 0xF4)
             then InvalidContinuation 1 else UnexpectedEnd
         | [ch2, ch3] \<Rightarrow>
             if \<not> is_continuation_byte ch2 \<or> (if ch2 < 0x90 then ch = 0xF0 else ch = 0xF4)
             then InvalidContinuation 1
             else if \<not> is_continuation_byte ch3 then InvalidContinuation 2
             else UnexpectedEnd
         | ch2 # ch3 # ch4 # _ \<Rightarrow>
             if \<not> is_continuation_byte ch2 then InvalidContinuation 1
             else if ch = 0xF0 \<and> ch2 < 0x90 then InvalidContinuation 1
             else if ch = 0xF4 \<and> ch2 \<ge> 0x90 then InvalidContinuation 1
             else if \<not> is_continuation_byte ch3 then InvalidContinuation 2
             else if \<not> is_continuation_byte ch4 then InvalidContinuation 3
             else Decoded (ch * 262144 + ch2 * 4096 + ch3 * 64 + ch4
                           - (0xF0 * 262144 + 0x80 * 4096 + 0x80 * 64 + 0x80)) 4)
      else InvalidStart)"

text \<open>The number of bytes a step moves forward by; at least one on a non-empty input.\<close>

fun step_width :: "utf8_step \<Rightarrow> bytes \<Rightarrow> nat" where
  "step_width (Decoded c n) s = max 1 n"
| "step_width InvalidStart s = 1"
| "step_width (InvalidContinuation n) s = max 1 n"
| "step_width UnexpectedEnd s = length s"

text \<open>\<open>errors='strict'\<close>: the first error raises \<open>UnicodeDecodeError\<close>.\<close>

function utf8_decode_strict :: "bytes \<Rightarrow> error + str" where
  "utf8_decode_strict s =
     (if s = [] then Inr []
      else case utf8_decode_step s of
          Decoded c n \<Rightarrow>
            (case utf8_decode_strict (drop (step_width (Decoded c n) s) s) of
               Inl e \<Rightarrow> Inl e
             | Inr cs \<Rightarrow> Inr (c # cs))
        | _ \<Rightarrow> Inl UnicodeDecodeError)"
  by pat_completeness auto
termination
  by (relation "measure length") auto

text \<open>\<open>errors='ignore'\<close>: the bytes an error covers are skipped and decoding goes on.\<close>

function utf8_decode_ignore :: "bytes \<Rightarrow> str" where
  "utf8_decode_ignore s =
     (if s = [] then []
      else case utf8_decode_step s of
          Decoded c n \<Rightarrow> c # utf8_decode_ignore (drop (step_width (Decoded c n) s) s)
        | r \<Rightarrow> utf8_decode_ignore (drop (step_width r s) s))"
  by pat_completeness auto
termination
  by (relation "measure length") auto

section \<open>The binary codec of \<open>stego_engine.py\<close> and \<open>audio_stego.py\<close>\<close>

text \<open>
  \<open>format(byte, '08b')\<close>: the binary digits of the number, padded with zeros on the left
  to at least eight characters.
\<close>

fun bin_digits :: "nat \<Rightarrow> string" where
  "bin_digits n =
     (if n < 2 then [if n = 0 then CHR ''0'' else CHR ''1'']
      else bin_digits (n div 2) @ [if n mod 2 = 0 then CHR ''0'' else CHR ''1''])"

definition format_08b :: "nat \<Rightarrow> string" where
  "format_08b n = replicate (8 - length (bin_digits n)) CHR ''0'' @ bin_digits n"

text \<open>
  \<open>int(s, 2)\<close> on a string of binary digits. Python's \<open>int\<close> also accepts a sign, blanks,
  underscores and a \<open>0b\<close> prefix; the model raises \<open>ValueError\<close> on everything that is not
  a non-empty string of binary digits, and the engines only ever pass such strings.
\<close>

definition is_bits :: "string \<Rightarrow> bool" where
  "is_bits s = list_all (\<lambda>c. c = CHR ''0'' \<or> c = CHR ''1'') s"

definition bits_value :: "nat \<Rightarrow> string \<Rightarrow> nat" where
  "bits_value acc s = foldl (\<lambda>acc c. 2 * acc + (if c = CHR ''1'' then 1 else 0)) acc s"

definition int_base2 :: "string \<Rightarrow> error + nat" where
  "int_base2 s = (if s \<noteq> [] \<and> is_bits s then Inr (bits_value 0 s) else Inl ValueError)"


definition text_to_binary :: "str \<Rightarrow> error + bitstring" where
  "text_to_binary text =
     (case utf8_encode text of
        Inl e \<Rightarrow> Inl e
      | Inr utf8_bytes \<Rightarrow> Inr (concat (map format_08b utf8_bytes)))"

text \<open>
  The loop of \<open>binary_to_text\<close>: \<open>for i in range(0, len(binary), 8)\<close> takes the slice
  \<open>binary[i:i+8]\<close> and keeps it only when it has eight characters.
\<close>

function collect_bytes :: "bitstring \<Rightarrow> error + bytes" where
  "collect_bytes binary =
     (if binary = [] then Inr []
      else let byte = take 8 binary in
        if length byte = 8 then
          (case int_base2 byte of
             Inl e \<Rightarrow> Inl e
           | Inr v \<Rightarrow> (case collect_bytes (drop 8 binary) of
                         Inl e \<Rightarrow> Inl e
                       | Inr chars \<Rightarrow> Inr (v # chars)))
        else collect_bytes (drop 8 binary))"
  by pat_completeness auto
termination
  by (relation "measure length") auto

definition binary_to_text :: "bitstring \<Rightarrow> error + str" where
  "binary_to_text binary =
     (case collect_bytes binary of
        Inl e \<Rightarrow> Inl e
      | Inr chars \<Rightarrow>
          (case utf8_decode_strict chars of
             Inr t \<Rightarrow> Inr t
           | Inl UnicodeDecodeError \<Rightarrow> Inr (utf8_decode_ignore chars)
           | Inl e \<Rightarrow> Inl e))"

section \<open>Arrays, files and the framing constant\<close>

text \<open>
  NumPy arrays are mutable objects: a heap is the list of the arrays allocated so far and a
  reference is an index into it. \<open>np_copy\<close> is \<open>a.copy()\<close>, which allocates; \<open>heap_store\<close>
  is the assignment \<open>a[i] = v\<close>.
\<close>

type_synonym ref = nat
type_synonym 'a heap = "'a list list"

definition np_copy :: "'a heap \<Rightarrow> ref \<Rightarrow> ref \<times> 'a heap" where
  "np_copy h r = (length h, h @ [h ! r])"

definition heap_store :: "'a heap \<Rightarrow> ref \<Rightarrow> nat \<Rightarrow> 'a \<Rightarrow> 'a heap" where
  "heap_store h r i v = h[r := (h ! r)[i := v]]"

text \<open>
  An image file is known by the array \<open>np.array(img)\<close> that the engine gets from it once the
  mode has been normalised to RGB or RGBA (lines 39-42 of \<open>stego_engine.py\<close>): its shape
  and its samples in flattened order. A wave file is its parameters and its frame bytes.
  Opening a missing or foreign file and writing to an unwritable path raise. \<open>OtherFile\<close>
  is any file that is neither, an empty file for instance.
\<close>

record image_array =
  shape :: "nat list"
  pixels :: "8 word list"

record wave_params =
  nchannels :: nat
  sampwidth :: nat
  framerate :: nat

record wave_file =
  params :: wave_params
  frames :: bytes

datatype file_content = ImageFile image_array | WaveFile wave_file | OtherFile

record world =
  files :: "string \<Rightarrow> file_content option"
  writable :: "string \<Rightarrow> bool"

definition Image_open :: "world \<Rightarrow> string \<Rightarrow> error + image_array" where
  "Image_open w path = (case files w path of Some (ImageFile a) \<Rightarrow> Inr a | _ \<Rightarrow> Inl FileError)"


definition wave_open :: "world \<Rightarrow> string \<Rightarrow> error + wave_file" where
  "wave_open w path = (case files w path of Some (WaveFile a) \<Rightarrow> Inr a | _ \<Rightarrow> Inl FileError)"



text \<open>
  Two facts about the interpreter decide what the hide operations do: the major version of
  NumPy, and whether \<open>print\<close> can write to standard output. \<open>print\<close> raises when it cannot,
  for instance \<open>UnicodeEncodeError\<close> on a console whose encoding lacks the check mark and
  the cross that every message of the engines starts with.
\<close>

record runtime =
  numpy_major :: nat
  stdout_ok :: bool

definition print :: "runtime \<Rightarrow> error + unit" where
  "print rt = (if stdout_ok rt then Inr () else Inl PrintError)"

text \<open>
  \<open>np.frombuffer(frames, dtype=np.int16)\<close> reads little-endian pairs of bytes and raises
  \<open>ValueError\<close> when the buffer has odd length; \<open>tobytes\<close> writes them back.
\<close>

fun frombuffer_int16 :: "bytes \<Rightarrow> error + 16 word list" where
  "frombuffer_int16 [] = Inr []"
| "frombuffer_int16 [b] = Inl ValueError"
| "frombuffer_int16 (lo # hi # rest) =
     (case frombuffer_int16 rest of
        Inl e \<Rightarrow> Inl e
      | Inr ws \<Rightarrow> Inr (word_of_nat (lo + 256 * hi) # ws))"

definition tobytes_int16 :: "16 word list \<Rightarrow> bytes" where
  "tobytes_int16 ws = concat (map (\<lambda>w. [unat w mod 256, unat w div 256]) ws)"



section \<open>The image engine, \<open>stego_engine.py\<close>\<close>

text \<open>
  \<open>fast_embed_pixels\<close>: the loop writes \<open>(result[i] & 254) | binary_data[i]\<close> into the
  copy, for \<open>i\<close> below the shorter of the two lengths.
\<close>

function embed_pixels_loop :: "8 word heap \<Rightarrow> ref \<Rightarrow> ref \<Rightarrow> nat \<Rightarrow> nat \<Rightarrow> 8 word heap" where
  "embed_pixels_loop h binary_data result i n =
     (if i < n
      then embed_pixels_loop
             (heap_store h result i (((h ! result ! i) AND 254) OR (h ! binary_data ! i)))
             binary_data result (Suc i) n
      else h)"
  by pat_completeness auto
termination
  by (relation "measure (\<lambda>(h, binary_data, result, i, n). n - i)") auto

definition fast_embed_pixels :: "8 word heap \<Rightarrow> ref \<Rightarrow> ref \<Rightarrow> ref \<times> 8 word heap" where
  "fast_embed_pixels h binary_data flat_pixels =
     (case np_copy h flat_pixels of
        (result, h1) \<Rightarrow>
          (result,
           embed_pixels_loop h1 binary_data result 0
             (min (length (h1 ! binary_data)) (length (h1 ! flat_pixels)))))"


text \<open>\<open>int(bit)\<close> on a binary digit, and \<open>str(bit)\<close> on an extracted bit (0 or 1).\<close>

definition int_of_digit :: "char \<Rightarrow> 'a::len word" where
  "int_of_digit c = (if c = CHR ''1'' then 1 else 0)"





text \<open>
  The capacity report. \<open>max_chars - 50\<close> is a Python integer and can be negative. The
  \<open>except\<close> branch returns a dictionary holding only the error.
\<close>

record image_capacity =
  ic_dimensions :: "nat \<times> nat"
  ic_channels :: nat
  ic_total_pixels :: nat
  ic_max_bits :: nat
  ic_max_characters :: nat
  ic_recommended_message_length :: int

definition get_image_capacity :: "world \<Rightarrow> string \<Rightarrow> error + image_capacity" where
  "get_image_capacity w image_path =
     (case Image_open w image_path of
        Inl e \<Rightarrow> Inl e
      | Inr img_array \<Rightarrow>
          let height = shape img_array ! 0;
              width = shape img_array ! 1;
              channels = (if length (shape img_array) > 2 then shape img_array ! 2 else 1);
              total_pixels = height * width * channels;
              max_chars = total_pixels div 8
          in Inr \<lparr>ic_dimensions = (width, height), ic_channels = channels,
                  ic_total_pixels = total_pixels, ic_max_bits = total_pixels,
                  ic_max_characters = max_chars,
                  ic_recommended_message_length = int max_chars - 50\<rparr>)"

section \<open>The audio engine, \<open>audio_stego.py\<close>\<close>

text \<open>
  \<open>stego_data[i] & 0xFFFE\<close>, line 39: the sample is a \<open>np.int16\<close> and the mask is the Python
  integer 65534, above the largest \<open>int16\<close>. Before NumPy 2 the two operands are promoted to
  a wider integer type, and the assignment to \<open>stego_data[i]\<close> casts the result back to 16
  bits: on 16-bit words this is the bitwise \<open>AND\<close> with the low 16 bits of the mask. From
  NumPy 2 on a Python integer operand is converted to the type of the sample, and the
  conversion raises \<open>OverflowError\<close> when the integer is outside -32768..32767.
\<close>

definition int16_and :: "runtime \<Rightarrow> 16 word \<Rightarrow> int \<Rightarrow> error + 16 word" where
  "int16_and rt sample k =
     (if 2 \<le> numpy_major rt \<and> (k < - 32768 \<or> 32767 < k) then Inl OverflowError
      else Inr (sample AND word_of_int k))"

text \<open>
  The embedding loop of \<open>hide_message_in_audio\<close>, on the copy \<open>stego_data\<close>:
  \<open>stego_data[i] = (stego_data[i] & 0xFFFE) | int(binary_message[i])\<close> for the indices
  below \<open>message_length\<close> that the array has. The samples are 16-bit words. The loop stops
  at the first sample on which the mask raises.
\<close>

function embed_samples_loop ::
  "runtime \<Rightarrow> 16 word heap \<Rightarrow> ref \<Rightarrow> bitstring \<Rightarrow> nat \<Rightarrow> nat \<Rightarrow> error + 16 word heap" where
  "embed_samples_loop rt h stego_data binary_message i message_length =
     (if i < message_length
      then (if i < length (h ! stego_data)
            then (case int16_and rt (h ! stego_data ! i) 0xFFFE of
                    Inl e \<Rightarrow> Inl e
                  | Inr masked \<Rightarrow>
                      embed_samples_loop rt
                        (heap_store h stego_data i
                           (masked OR int_of_digit (binary_message ! i)))
                        stego_data binary_message (Suc i) message_length)
            else embed_samples_loop rt h stego_data binary_message (Suc i) message_length)
      else Inr h)"
  by pat_completeness auto
termination
  by (relation "measure (\<lambda>(rt, h, stego_data, binary_message, i, n). n - i)") auto




text \<open>
  \<open>get_audio_capacity\<close>. The duration is \<open>total_samples / params.framerate\<close>, which raises
  \<open>ZeroDivisionError\<close> on a frame rate of zero; it is kept as a rational number.
\<close>

record audio_capacity =
  ac_duration :: rat
  ac_sample_rate :: nat
  ac_channels :: nat
  ac_total_samples :: nat
  ac_max_bits :: nat
  ac_max_characters :: nat
  ac_recommended_message_length :: int

definition get_audio_capacity :: "world \<Rightarrow> string \<Rightarrow> error + audio_capacity" where
  "get_audio_capacity w audio_path =
     (case wave_open w audio_path of
        Inl e \<Rightarrow> Inl e
      | Inr audio \<Rightarrow>
          (case frombuffer_int16 (frames audio) of
             Inl e \<Rightarrow> Inl e
           | Inr audio_data \<Rightarrow>
               let total_samples = length audio_data;
                   max_chars = total_samples div 8
               in if framerate (params audio) = 0 then Inl ZeroDivisionError
                  else Inr \<lparr>ac_duration = of_nat total_samples / of_nat (framerate (params audio)),
                            ac_sample_rate = framerate (params audio),
                            ac_channels = nchannels (params audio),
                            ac_total_samples = total_samples, ac_max_bits = total_samples,
                            ac_max_characters = max_chars,
                            ac_recommended_message_length = int max_chars - 50\<rparr>))"

section \<open>What the embedding loops compute\<close>

text \<open>
  The closed form of both loops: the elements at the indices from \<open>i\<close> up to \<open>n\<close> are
  rewritten by \<open>f\<close>, the others are kept.
\<close>

definition overwrite_range :: "(nat \<Rightarrow> 'a \<Rightarrow> 'a) \<Rightarrow> 'a list \<Rightarrow> nat \<Rightarrow> nat \<Rightarrow> 'a list" where
  "overwrite_range f r i n =
     map (\<lambda>j. if i \<le> j \<and> j < n then f j (r ! j) else r ! j) [0..<length r]"

text \<open>
  An array that \<open>np.array\<close> gives for an RGB or RGBA image has three dimensions and as many
  samples as their product.
\<close>

definition image_ok :: "image_array \<Rightarrow> bool" where
  "image_ok a =
     (length (shape a) = 3 \<and> length (pixels a) = shape a ! 0 * shape a ! 1 * shape a ! 2)"

section \<open>The cipher box, \<open>encryptor.py\<close>\<close>

text \<open>
  SHA-256 and the AES block cipher come from libraries: they are parameters, and what is
  known of them is \<open>crypto_lib_ok\<close> (a digest has 32 bytes; on a block of 16 bytes the
  block cipher gives 16 bytes and decryption undoes encryption under the same key).
\<close>

record crypto_lib =
  sha256 :: "bytes \<Rightarrow> bytes"
  aes_encrypt_block :: "bytes \<Rightarrow> bytes \<Rightarrow> bytes"
  aes_decrypt_block :: "bytes \<Rightarrow> bytes \<Rightarrow> bytes"

definition crypto_lib_ok :: "crypto_lib \<Rightarrow> bool" where
  "crypto_lib_ok L =
     ((\<forall>m. length (sha256 L m) = 32)
      \<and> (\<forall>k b. length b = 16 \<and> is_bytes b \<longrightarrow>
             length (aes_encrypt_block L k b) = 16
           \<and> is_bytes (aes_encrypt_block L k b)
           \<and> aes_decrypt_block L k (aes_encrypt_block L k b) = b))"

definition derive_key :: "crypto_lib \<Rightarrow> str \<Rightarrow> error + bytes" where
  "derive_key L password =
     (case utf8_encode password of Inl e \<Rightarrow> Inl e | Inr b \<Rightarrow> Inr (sha256 L b))"

text \<open>
  \<open>AES.new(key, AES.MODE_CBC, iv)\<close> checks the lengths of the key and of the IV;
  \<open>encrypt\<close> and \<open>decrypt\<close> want whole blocks. In CBC mode each plaintext block is xored
  with the previous ciphertext block (the IV for the first) before the block cipher.
\<close>

record cbc_cipher =
  cipher_key :: bytes
  cipher_iv :: bytes

definition AES_new :: "bytes \<Rightarrow> bytes \<Rightarrow> error + cbc_cipher" where
  "AES_new key iv =
     (if length key \<noteq> 16 \<and> length key \<noteq> 24 \<and> length key \<noteq> 32 then Inl ValueError
      else if length iv \<noteq> 16 then Inl ValueError
      else Inr \<lparr>cipher_key = key, cipher_iv = iv\<rparr>)"

definition xor_bytes :: "bytes \<Rightarrow> bytes \<Rightarrow> bytes" where
  "xor_bytes a b = map (\<lambda>(x, y). x XOR y) (zip a b)"

function cbc_encrypt :: "crypto_lib \<Rightarrow> bytes \<Rightarrow> bytes \<Rightarrow> bytes \<Rightarrow> bytes" where
  "cbc_encrypt L key prev data =
     (if data = [] then []
      else aes_encrypt_block L key (xor_bytes (take 16 data) prev)
           @ cbc_encrypt L key (aes_encrypt_block L key (xor_bytes (take 16 data) prev))
               (drop 16 data))"
  by pat_completeness auto
termination
  by (relation "measure (\<lambda>(L, key, prev, data). length data)") auto

function cbc_decrypt :: "crypto_lib \<Rightarrow> bytes \<Rightarrow> bytes \<Rightarrow> bytes \<Rightarrow> bytes" where
  "cbc_decrypt L key prev data =
     (if data = [] then []
      else xor_bytes (aes_decrypt_block L key (take 16 data)) prev
           @ cbc_decrypt L key (take 16 data) (drop 16 data))"
  by pat_completeness auto
termination
  by (relation "measure (\<lambda>(L, key, prev, data). length data)") auto

definition cipher_encrypt :: "crypto_lib \<Rightarrow> cbc_cipher \<Rightarrow> bytes \<Rightarrow> error + bytes" where
  "cipher_encrypt L cipher data =
     (if length data mod 16 \<noteq> 0 then Inl ValueError
      else Inr (cbc_encrypt L (cipher_key cipher) (cipher_iv cipher) data))"

definition cipher_decrypt :: "crypto_lib \<Rightarrow> cbc_cipher \<Rightarrow> bytes \<Rightarrow> error + bytes" where
  "cipher_decrypt L cipher data =
     (if length data mod 16 \<noteq> 0 then Inl ValueError
      else Inr (cbc_decrypt L (cipher_key cipher) (cipher_iv cipher) data))"

text \<open>\<open>Crypto.Util.Padding\<close>, PKCS#7: \<open>pad\<close> always adds between 1 and a block of bytes.\<close>

definition pad :: "bytes \<Rightarrow> nat \<Rightarrow> bytes" where
  "pad data_to_pad block_size =
     (let padding_len = block_size - length data_to_pad mod block_size
      in data_to_pad @ replicate padding_len padding_len)"

definition unpad :: "bytes \<Rightarrow> nat \<Rightarrow> error + bytes" where
  "unpad padded_data block_size =
     (let pdata_len = length padded_data in
      if pdata_len = 0 then Inl ValueError
      else if pdata_len mod block_size \<noteq> 0 then Inl ValueError
      else let padding_len = last padded_data in
        if padding_len < 1 \<or> padding_len > min block_size pdata_len then Inl ValueError
        else if drop (pdata_len - padding_len) padded_data \<noteq> replicate padding_len padding_len
        then Inl ValueError
        else Inr (take (pdata_len - padding_len) padded_data))"

text \<open>
  \<open>base64.b64encode\<close>: three bytes give four characters of the alphabet, and \<open>=\<close> (61)
  fills the last group.
\<close>

definition b64_char :: "nat \<Rightarrow> nat" where
  "b64_char v =
     (if v < 26 then 65 + v
      else if v < 52 then 97 + (v - 26)
      else if v < 62 then 48 + (v - 52)
      else if v = 62 then 43 else 47)"

fun b64encode :: "bytes \<Rightarrow> bytes" where
  "b64encode [] = []"
| "b64encode [a] = [b64_char (a div 4), b64_char ((a mod 4) * 16), 61, 61]"
| "b64encode [a, b] =
     [b64_char (a div 4), b64_char ((a mod 4) * 16 + b div 16), b64_char ((b mod 16) * 4), 61]"
| "b64encode (a # b # c # rest) =
     [b64_char (a div 4), b64_char ((a mod 4) * 16 + b div 16),
      b64_char ((b mod 16) * 4 + c div 64), b64_char (c mod 64)] @ b64encode rest"

text \<open>
  \<open>base64.b64decode\<close> without validation, the loop of \<open>binascii.a2b_base64\<close>: characters
  outside the alphabet are skipped, a padding character ends the input once the current
  group holds enough characters, and an input that stops inside a group raises
  \<open>binascii.Error\<close>.
\<close>

definition b64_value :: "nat \<Rightarrow> nat option" where
  "b64_value ch =
     (if 65 \<le> ch \<and> ch \<le> 90 then Some (ch - 65)
      else if 97 \<le> ch \<and> ch \<le> 122 then Some (ch - 97 + 26)
      else if 48 \<le> ch \<and> ch \<le> 57 then Some (ch - 48 + 52)
      else if ch = 43 then Some 62
      else if ch = 47 then Some 63
      else None)"

fun a2b_base64_loop :: "bytes \<Rightarrow> nat \<Rightarrow> nat \<Rightarrow> nat \<Rightarrow> bytes \<Rightarrow> error + bytes" where
  "a2b_base64_loop [] quad_pos leftchar pads out =
     (if quad_pos \<noteq> 0 then Inl BinasciiError else Inr out)"
| "a2b_base64_loop (this_ch # rest) quad_pos leftchar pads out =
     (if this_ch = 61 then
        (if quad_pos \<ge> 2 \<and> quad_pos + (pads + 1) \<ge> 4 then Inr out
         else a2b_base64_loop rest quad_pos leftchar
                (if quad_pos \<ge> 2 then pads + 1 else pads) out)
      else case b64_value this_ch of
          None \<Rightarrow> a2b_base64_loop rest quad_pos leftchar pads out
        | Some v \<Rightarrow>
            (if quad_pos = 0 then a2b_base64_loop rest 1 v 0 out
             else if quad_pos = 1
             then a2b_base64_loop rest 2 (v mod 16) 0 (out @ [leftchar * 4 + v div 16])
             else if quad_pos = 2
             then a2b_base64_loop rest 3 (v mod 4) 0 (out @ [leftchar * 16 + v div 4])
             else a2b_base64_loop rest 0 0 0 (out @ [leftchar * 64 + v])))"

definition b64decode :: "bytes \<Rightarrow> error + bytes" where
  "b64decode s = a2b_base64_loop s 0 0 0 []"

text \<open>
  \<open>encrypt_message\<close> and \<open>decrypt_message\<close>. The 16 random bytes of
  \<open>get_random_bytes(16)\<close> are an argument. Whatever the body raises is wrapped into the
  exception of the function.
\<close>

definition encrypt_message_try :: "crypto_lib \<Rightarrow> str \<Rightarrow> str \<Rightarrow> bytes \<Rightarrow> error + str" where
  "encrypt_message_try L message password iv =
     (case derive_key L password of
        Inl e \<Rightarrow> Inl e
      | Inr key \<Rightarrow>
          (case AES_new key iv of
             Inl e \<Rightarrow> Inl e
           | Inr cipher \<Rightarrow>
               (case utf8_encode message of
                  Inl e \<Rightarrow> Inl e
                | Inr message_bytes \<Rightarrow>
                    (case cipher_encrypt L cipher (pad message_bytes 16) of
                       Inl e \<Rightarrow> Inl e
                     | Inr encrypted_data \<Rightarrow>
                         utf8_decode_strict (b64encode (iv @ encrypted_data))))))"

definition encrypt_message :: "crypto_lib \<Rightarrow> str \<Rightarrow> str \<Rightarrow> bytes \<Rightarrow> error + str" where
  "encrypt_message L message password iv =
     (case encrypt_message_try L message password iv of
        Inl e \<Rightarrow> Inl (EncryptionFailed e)
      | Inr encoded \<Rightarrow> Inr encoded)"

definition decrypt_message_try :: "crypto_lib \<Rightarrow> str \<Rightarrow> str \<Rightarrow> error + str" where
  "decrypt_message_try L encrypted_message password =
     (case derive_key L password of
        Inl e \<Rightarrow> Inl e
      | Inr key \<Rightarrow>
          (case utf8_encode encrypted_message of
             Inl e \<Rightarrow> Inl e
           | Inr encoded \<Rightarrow>
               (case b64decode encoded of
                  Inl e \<Rightarrow> Inl e
                | Inr encrypted_with_iv \<Rightarrow>
                    (case AES_new key (take 16 encrypted_with_iv) of
                       Inl e \<Rightarrow> Inl e
                     | Inr cipher \<Rightarrow>
                         (case cipher_decrypt L cipher (drop 16 encrypted_with_iv) of
                            Inl e \<Rightarrow> Inl e
                          | Inr decrypted_padded \<Rightarrow>
                              (case unpad decrypted_padded 16 of
                                 Inl e \<Rightarrow> Inl e
                               | Inr decrypted_message \<Rightarrow>
                                   utf8_decode_strict decrypted_message))))))"

definition decrypt_message :: "crypto_lib \<Rightarrow> str \<Rightarrow> str \<Rightarrow> error + str" where
  "decrypt_message L encrypted_message password =
     (case decrypt_message_try L encrypted_message password of
        Inl e \<Rightarrow> Inl (DecryptionFailed e)
      | Inr message \<Rightarrow> Inr message)"

section \<open>Voice authentication, \<open>voice_auth.py\<close>\<close>

text \<open>
  The text operations of \<open>normalize_text\<close> depend on the Unicode database of the
  interpreter, which is a parameter: \<open>str.lower\<close>, the white space of \<open>str.strip\<close>,
  \<open>str.split\<close> and the pattern \<open>\s\<close> (one and the same set of characters in CPython), and the
  word characters of the pattern \<open>\w\<close>.
\<close>

record unicode_lib =
  str_lower :: "str \<Rightarrow> str"
  isspace :: "nat \<Rightarrow> bool"
  isword :: "nat \<Rightarrow> bool"

definition str_strip :: "unicode_lib \<Rightarrow> str \<Rightarrow> str" where
  "str_strip U s = rev (dropWhile (isspace U) (rev (dropWhile (isspace U) s)))"

text \<open>\<open>re.sub(r'[^\w\s]', '', text)\<close> deletes the characters that are neither.\<close>

definition sub_punctuation :: "unicode_lib \<Rightarrow> str \<Rightarrow> str" where
  "sub_punctuation U s = filter (\<lambda>c. isword U c \<or> isspace U c) s"

text \<open>\<open>re.sub(r'\s+', ' ', text)\<close> replaces every maximal run of white space by one space.\<close>

function sub_spaces :: "unicode_lib \<Rightarrow> str \<Rightarrow> str" where
  "sub_spaces U [] = []"
| "sub_spaces U (c # s) =
     (if isspace U c then 32 # sub_spaces U (dropWhile (isspace U) s)
      else c # sub_spaces U s)"
  by pat_completeness auto
termination
  by (relation "measure (\<lambda>(U, s). length s)")
     (auto simp: length_dropWhile_le less_Suc_eq_le)

definition normalize_text :: "unicode_lib \<Rightarrow> str \<Rightarrow> str" where
  "normalize_text U t =
     (let t1 = str_strip U (str_lower U t);
          t2 = sub_punctuation U t1;
          t3 = sub_spaces U t2
      in str_strip U t3)"

text \<open>
  \<open>text.split()\<close>: the maximal runs of characters that are not white space, in order.
\<close>

fun split_loop :: "unicode_lib \<Rightarrow> str \<Rightarrow> str \<Rightarrow> str list" where
  "split_loop U word [] = (if word = [] then [] else [word])"
| "split_loop U word (c # s) =
     (if isspace U c
      then (if word = [] then split_loop U [] s else word # split_loop U [] s)
      else split_loop U (word @ [c]) s)"

definition str_split :: "unicode_lib \<Rightarrow> str \<Rightarrow> str list" where
  "str_split U s = split_loop U [] s"

text \<open>
  A Python float is kept as the rational number it stands for (the finite floats). The
  arithmetic on floats belongs to the interpreter and is a parameter: the true division
  \<open>x / y\<close> of two numbers, and \<open>sum\<close> on a list of numbers. What is known of the division
  is \<open>float_lib_ok\<close>: a positive integer divided by itself is 1.0, and the quotient of two
  integers \<open>i < u < 2^53\<close> is a float below 1.0.
\<close>

record float_lib =
  true_div :: "rat \<Rightarrow> rat \<Rightarrow> rat"
  float_sum :: "rat list \<Rightarrow> rat"

definition float_lib_ok :: "float_lib \<Rightarrow> bool" where
  "float_lib_ok F =
     ((\<forall>n::nat. 0 < n \<longrightarrow> true_div F (of_nat n) (of_nat n) = 1)
      \<and> (\<forall>(i::nat) (u::nat). i < u \<and> u < 2 ^ 53 \<longrightarrow> true_div F (of_nat i) (of_nat u) < 1))"

text \<open>\<open>_calculate_similarity\<close>, lines 121-132.\<close>

definition calculate_similarity :: "unicode_lib \<Rightarrow> float_lib \<Rightarrow> str \<Rightarrow> str \<Rightarrow> rat" where
  "calculate_similarity U F text1 text2 =
     (if text1 = [] \<or> text2 = [] then 0
      else if text1 = text2 then 1
      else let words1 = set (str_split U text1);
               words2 = set (str_split U text2)
           in if words1 = {} \<or> words2 = {} then 0
              else let intersection = card (words1 \<inter> words2);
                       union_size = card (words1 \<union> words2)
                   in if union_size > 0
                      then true_div F (of_nat intersection) (of_nat union_size)
                      else 0)"

text \<open>
  The Whisper model is a library object: what is known of it is the function from the
  path of a wave file to the dictionary that \<open>transcribe\<close> returns, or to the exception it
  raises. Of the dictionary the code reads the text, the language when there is one, and
  the \<open>avg_logprob\<close> of the segments, when there are segments and a segment has one.
\<close>

record segment =
  avg_logprob :: "rat option"

record whisper_result =
  result_text :: str
  result_language :: "str option"
  result_segments :: "segment list option"

type_synonym whisper_model = "str \<Rightarrow> error + whisper_result"

record authenticator =
  model_size :: str
  model :: "whisper_model option"

text \<open>
  The constructor, lines 10-22: \<open>_load_model\<close> prints, loads the model with
  \<open>whisper.load_model\<close>, a parameter, and prints again; when any of this raises, the handler
  prints and re-raises, so no object is made.
\<close>

definition load_model_try ::
  "runtime \<Rightarrow> (str \<Rightarrow> error + whisper_model) \<Rightarrow> str \<Rightarrow> error + whisper_model" where
  "load_model_try rt whisper_load_model msize =
     (case print rt of
        Inl e \<Rightarrow> Inl e
      | Inr u \<Rightarrow>
          (case whisper_load_model msize of
             Inl e \<Rightarrow> Inl e
           | Inr m \<Rightarrow> (case print rt of Inl e \<Rightarrow> Inl e | Inr u \<Rightarrow> Inr m)))"

definition VoiceAuthenticator ::
  "runtime \<Rightarrow> (str \<Rightarrow> error + whisper_model) \<Rightarrow> str \<Rightarrow> error + authenticator" where
  "VoiceAuthenticator rt whisper_load_model msize =
     (case load_model_try rt whisper_load_model msize of
        Inl e \<Rightarrow> (case print rt of Inl e' \<Rightarrow> Inl e' | Inr u \<Rightarrow> Inl e)
      | Inr m \<Rightarrow> Inr \<lparr>model_size = msize, model = Some m\<rparr>)"

text \<open>
  \<open>convert_audio_to_wav\<close>, lines 30-38: the conversion by \<open>pydub\<close> into a temporary wave
  file is a parameter; what it raises is wrapped.
\<close>

definition convert_audio_to_wav :: "(str \<Rightarrow> error + str) \<Rightarrow> str \<Rightarrow> error + str" where
  "convert_audio_to_wav pydub_export audio_path =
     (case pydub_export audio_path of
        Inl e \<Rightarrow> Inl (ConversionFailed e)
      | Inr temp_wav \<Rightarrow> Inr temp_wav)"

definition endswith :: "str \<Rightarrow> str \<Rightarrow> bool" where
  "endswith s suffix = (length suffix \<le> length s \<and> drop (length s - length suffix) s = suffix)"

definition dot_wav :: str where
  "dot_wav = [46, 119, 97, 118]"

definition unknown :: str where
  "unknown = [117, 110, 107, 110, 111, 119, 110]"

record transcript =
  t_text :: str
  t_normalized_text :: str
  t_language :: str
  t_confidence :: rat
  t_success :: bool
  t_error :: "error option"

text \<open>
  The body of the \<open>try\<close> in \<open>transcribe_audio\<close>, lines 46-67. The temporary file, which the
  \<open>finally\<close> clause removes, has no part in the result.
\<close>

definition transcribe_audio_try ::
  "runtime \<Rightarrow> unicode_lib \<Rightarrow> float_lib \<Rightarrow> (str \<Rightarrow> error + str) \<Rightarrow> whisper_model \<Rightarrow> str
   \<Rightarrow> error + transcript" where
  "transcribe_audio_try rt U F pydub_export m audio_path =
     (case (if \<not> endswith (str_lower U audio_path) dot_wav
            then convert_audio_to_wav pydub_export audio_path
            else Inr audio_path) of
        Inl e \<Rightarrow> Inl e
      | Inr process_path \<Rightarrow>
          (case print rt of
             Inl e \<Rightarrow> Inl e
           | Inr u \<Rightarrow>
               (case m process_path of
                  Inl e \<Rightarrow> Inl e
                | Inr result \<Rightarrow>
                    let transcribed_text = str_strip U (result_text result);
                        detected_language =
                          (case result_language result of None \<Rightarrow> unknown | Some l \<Rightarrow> l);
                        avg_confidence =
                          (case result_segments result of
                             None \<Rightarrow> 0
                           | Some segments \<Rightarrow>
                               if segments = [] then 0
                               else let confidences =
                                          map (\<lambda>seg. case avg_logprob seg of
                                                        None \<Rightarrow> 0 | Some x \<Rightarrow> x) segments
                                    in true_div F (float_sum F confidences)
                                         (of_nat (length confidences)))
                    in case print rt of
                         Inl e \<Rightarrow> Inl e
                       | Inr u \<Rightarrow>
                           Inr \<lparr>t_text = transcribed_text,
                                t_normalized_text = normalize_text U transcribed_text,
                                t_language = detected_language,
                                t_confidence = avg_confidence,
                                t_success = True,
                                t_error = None\<rparr>)))"

text \<open>
  \<open>transcribe_audio\<close>: the check of the model comes before the \<open>try\<close>; the handler prints,
  unprotected, and returns the record of a failure.
\<close>

definition transcribe_audio ::
  "runtime \<Rightarrow> unicode_lib \<Rightarrow> float_lib \<Rightarrow> (str \<Rightarrow> error + str) \<Rightarrow> authenticator \<Rightarrow> str
   \<Rightarrow> error + transcript" where
  "transcribe_audio rt U F pydub_export self audio_path =
     (case model self of
        None \<Rightarrow> Inl ModelNotLoaded
      | Some m \<Rightarrow>
          (case transcribe_audio_try rt U F pydub_export m audio_path of
             Inr t \<Rightarrow> Inr t
           | Inl e \<Rightarrow>
               (case print rt of
                  Inl e' \<Rightarrow> Inl e'
                | Inr u \<Rightarrow>
                    Inr \<lparr>t_text = [], t_normalized_text = [], t_language = unknown,
                         t_confidence = 0, t_success = False, t_error = Some e\<rparr>)))"

text \<open>
  \<open>verify_passphrase\<close>, lines 85-119. The two dictionaries it can return are one record,
  whose optional fields are those that only one of them has.
\<close>

record verification =
  verified :: bool
  similarity :: "rat option"
  v_confidence :: rat
  transcribed_text :: str
  transcribed_normalized :: "str option"
  expected_text :: str
  expected_normalized :: "str option"
  threshold :: "rat option"
  v_language :: "str option"
  v_error :: "error option"

definition verify_passphrase ::
  "runtime \<Rightarrow> unicode_lib \<Rightarrow> float_lib \<Rightarrow> (str \<Rightarrow> error + str) \<Rightarrow> authenticator \<Rightarrow> str
   \<Rightarrow> str \<Rightarrow> rat \<Rightarrow> error + verification" where
  "verify_passphrase rt U F pydub_export self audio_path expected_passphrase
     similarity_threshold =
     (case transcribe_audio rt U F pydub_export self audio_path of
        Inl e \<Rightarrow> Inl e
      | Inr transcription_result \<Rightarrow>
          if \<not> t_success transcription_result
          then Inr \<lparr>verified = False, similarity = None, v_confidence = 0,
                    transcribed_text = [], transcribed_normalized = None,
                    expected_text = expected_passphrase, expected_normalized = None,
                    threshold = None, v_language = None,
                    v_error = t_error transcription_result\<rparr>
          else let transcribed_normalized = t_normalized_text transcription_result;
                   expected_normalized = normalize_text U expected_passphrase;
                   similarity = calculate_similarity U F transcribed_normalized
                                  expected_normalized;
                   verified = (similarity \<ge> similarity_threshold)
               in case print rt of
                    Inl e \<Rightarrow> Inl e
                  | Inr u \<Rightarrow>
                      Inr \<lparr>verified = verified, similarity = Some similarity,
                           v_confidence = t_confidence transcription_result,
                           transcribed_text = t_text transcription_result,
                           transcribed_normalized = Some transcribed_normalized,
                           expected_text = expected_passphrase,
                           expected_normalized = Some expected_normalized,
                           threshold = Some similarity_threshold,
                           v_language = Some (t_language transcription_result),
                           v_error = None\<rparr>)"

section \<open>Example carriers\<close>

text \<open>
  Carriers for the examples: images of 15 and of 16 samples, the 100 x 100 RGB image of
  30000 samples, wave files of 15, 16 and 400 samples of 16 bits, a wave file of 16 samples
  whose header gives a frame rate of zero, and a world that holds them, where every path
  but one can be written.
\<close>

definition small_image :: image_array where
  "small_image = \<lparr>shape = [1, 5, 3], pixels = replicate 15 0\<rparr>"

definition exact_image :: image_array where
  "exact_image = \<lparr>shape = [1, 4, 4], pixels = replicate 16 255\<rparr>"

definition rgb_100x100 :: image_array where
  "rgb_100x100 = \<lparr>shape = [100, 100, 3], pixels = replicate 30000 0\<rparr>"

definition mono_8k :: wave_params where
  "mono_8k = \<lparr>nchannels = 1, sampwidth = 2, framerate = 8000\<rparr>"

definition small_wave :: wave_file where
  "small_wave = \<lparr>params = mono_8k, frames = tobytes_int16 (replicate 15 0)\<rparr>"

definition exact_wave :: wave_file where
  "exact_wave = \<lparr>params = mono_8k, frames = tobytes_int16 (replicate 16 (- 1))\<rparr>"

definition long_wave :: wave_file where
  "long_wave = \<lparr>params = mono_8k, frames = tobytes_int16 (replicate 400 0)\<rparr>"

definition rate0_wave :: wave_file where
  "rate0_wave =
     \<lparr>params = \<lparr>nchannels = 1, sampwidth = 2, framerate = 0\<rparr>,
      frames = tobytes_int16 (replicate 16 0)\<rparr>"

definition example_world :: world where
  "example_world =
     \<lparr>files = [''small.png'' \<mapsto> ImageFile small_image,
               ''exact.png'' \<mapsto> ImageFile exact_image,
               ''rgb.png'' \<mapsto> ImageFile rgb_100x100,
               ''small.wav'' \<mapsto> WaveFile small_wave,
               ''exact.wav'' \<mapsto> WaveFile exact_wave,
               ''long.wav'' \<mapsto> WaveFile long_wave,
               ''rate0.wav'' \<mapsto> WaveFile rate0_wave],
      writable = (\<lambda>path. path \<noteq> ''locked.png'')\<rparr>"

text \<open>
  Three interpreters: NumPy 1 and NumPy 2 with a standard output that works, and NumPy 1
  with one that does not.
\<close>

definition numpy1 :: runtime where
  "numpy1 = \<lparr>numpy_major = 1, stdout_ok = True\<rparr>"

definition numpy2 :: runtime where
  "numpy2 = \<lparr>numpy_major = 2, stdout_ok = True\<rparr>"

definition no_stdout :: runtime where
  "no_stdout = \<lparr>numpy_major = 1, stdout_ok = False\<rparr>"

text \<open>
  A stand-in for the cryptographic libraries in the examples: a constant digest and a
  block transformation that flips every bit of a block.
\<close>

definition toy_lib :: crypto_lib where
  "toy_lib =
     \<lparr>sha256 = (\<lambda>m. replicate 32 0),
      aes_encrypt_block = (\<lambda>k b. xor_bytes b (replicate 16 255)),
      aes_decrypt_block = (\<lambda>k b. xor_bytes b (replicate 16 255))\<rparr>"

text \<open>
  Stand-ins for the examples of voice authentication: the ASCII part of the Unicode
  database, exact arithmetic for the floats, a model that knows two recordings (the words
  \<open>Hello, World!\<close> in two segments, and silence) and raises on any other path, a loader
  that knows the model size \<open>base\<close>, and a converter that knows no audio format.
\<close>

definition ascii_lib :: unicode_lib where
  "ascii_lib =
     \<lparr>str_lower = map (\<lambda>c. if 65 \<le> c \<and> c \<le> 90 then c + 32 else c),
      isspace = (\<lambda>c. c = 32 \<or> (9 \<le> c \<and> c \<le> 13) \<or> (28 \<le> c \<and> c \<le> 31)),
      isword = (\<lambda>c. (48 \<le> c \<and> c \<le> 57) \<or> (65 \<le> c \<and> c \<le> 90) \<or> (97 \<le> c \<and> c \<le> 122)
                     \<or> c = 95)\<rparr>"

definition exact_floats :: float_lib where
  "exact_floats = \<lparr>true_div = (\<lambda>x y. x / y), float_sum = sum_list\<rparr>"

definition hello_wav :: str where
  "hello_wav = [104, 101, 108, 108, 111, 46, 119, 97, 118]"

definition silence_wav :: str where
  "silence_wav = [115, 105, 108, 101, 110, 99, 101, 46, 87, 65, 86]"

definition noise_wav :: str where
  "noise_wav = [110, 111, 105, 115, 101, 46, 119, 97, 118]"

definition voice_mp3 :: str where
  "voice_mp3 = [118, 111, 105, 99, 101, 46, 109, 112, 51]"

definition hello_world :: str where
  "hello_world = [32, 72, 101, 108, 108, 111, 44, 32, 87, 111, 114, 108, 100, 33]"

definition world_hello :: str where
  "world_hello = [119, 111, 114, 108, 100, 32, 32, 104, 101, 108, 108, 111]"

definition toy_model :: whisper_model where
  "toy_model path =
     (if path = hello_wav
      then Inr \<lparr>result_text = hello_world, result_language = Some [101, 110],
                result_segments = Some [\<lparr>avg_logprob = Some (- 1 / 4)\<rparr>,
                                        \<lparr>avg_logprob = Some (- 3 / 4)\<rparr>]\<rparr>
      else if path = silence_wav
      then Inr \<lparr>result_text = [], result_language = None, result_segments = Some []\<rparr>
      else Inl (ModelError ''cannot read the audio''))"

definition toy_load_model :: "str \<Rightarrow> error + whisper_model" where
  "toy_load_model msize =
     (if msize = [98, 97, 115, 101] then Inr toy_model
      else Inl (ModelError ''unknown model size''))"

definition toy_export :: "str \<Rightarrow> error + str" where
  "toy_export audio_path = Inl FileError"

definition toy_auth :: authenticator where
  "toy_auth = \<lparr>model_size = [98, 97, 115, 101], model = Some toy_model\<rparr>"

section \<open>Lemmas about the binary codec\<close>

declare bin_digits.simps [simp del]
declare collect_bytes.simps [simp del]
declare utf8_decode_strict.simps [simp del]
declare utf8_decode_ignore.simps [simp del]


lemma is_bits_bin_digits: "is_bits (bin_digits n)"
  by (induction n rule: bin_digits.induct) (subst bin_digits.simps, simp add: is_bits_def)

lemma length_bin_digits_pos: "0 < length (bin_digits n)"
  by (subst bin_digits.simps) simp

lemma length_bin_digits_le: "n < 2 ^ k \<Longrightarrow> 0 < k \<Longrightarrow> length (bin_digits n) \<le> k"
proof (induction n arbitrary: k rule: bin_digits.induct)
  case (1 n)
  show ?case
  proof (cases "n < 2")
    case True
    with 1(3) show ?thesis by (subst bin_digits.simps) simp
  next
    case False
    then obtain j where k: "k = Suc j" and j: "0 < j"
      using 1(2,3) by (cases k; cases "k - 1") auto
    have "n div 2 < 2 ^ j" using 1(2) k by auto
    from 1(1)[OF False this j] show ?thesis
      using False k by (subst bin_digits.simps) simp
  qed
qed

lemma bits_value_append: "bits_value acc (xs @ ys) = bits_value (bits_value acc xs) ys"
  by (simp add: bits_value_def)

lemma bits_value_bin_digits:
  "bits_value acc (bin_digits n) = acc * 2 ^ length (bin_digits n) + n"
proof (induction n arbitrary: acc rule: bin_digits.induct)
  case (1 n)
  show ?case
  proof (cases "n < 2")
    case True
    then show ?thesis by (subst (1 2) bin_digits.simps) (auto simp: bits_value_def)
  next
    case False
    have "bits_value acc (bin_digits n) =
          2 * bits_value acc (bin_digits (n div 2)) + n mod 2"
      using False by (subst bin_digits.simps) (auto simp: bits_value_def)
    also have "\<dots> = 2 * (acc * 2 ^ length (bin_digits (n div 2)) + n div 2) + n mod 2"
      using 1[OF False] by simp
    also have "\<dots> = acc * 2 ^ length (bin_digits n) + n"
      using False by (subst (2) bin_digits.simps) (simp add: algebra_simps)
    finally show ?thesis .
  qed
qed

lemma bits_value_zeros: "bits_value 0 (replicate k CHR ''0'') = 0"
  by (induction k) (auto simp: bits_value_def)

lemma length_format_08b: "n < 256 \<Longrightarrow> length (format_08b n) = 8"
  using length_bin_digits_le[of n 8] by (simp add: format_08b_def)

lemma is_bits_format_08b: "is_bits (format_08b n)"
  using is_bits_bin_digits[of n] unfolding format_08b_def is_bits_def list_all_append
  by (simp add: list_all_length)

lemma int_base2_format_08b: "int_base2 (format_08b n) = Inr n"
proof -
  have ne: "format_08b n \<noteq> []"
    using length_bin_digits_pos[of n] by (auto simp: format_08b_def)
  have "bits_value 0 (format_08b n) = n"
    by (simp add: format_08b_def bits_value_append bits_value_zeros bits_value_bin_digits)
  then show ?thesis
    using ne is_bits_format_08b[of n] by (simp add: int_base2_def)
qed

lemma collect_bytes_Nil: "collect_bytes [] = Inr []"
  by (subst collect_bytes.simps) simp

lemma collect_bytes_cons:
  assumes "length g = 8"
  shows "collect_bytes (g @ rest) =
     (case int_base2 g of Inl e \<Rightarrow> Inl e
      | Inr v \<Rightarrow> (case collect_bytes rest of Inl e \<Rightarrow> Inl e | Inr chars \<Rightarrow> Inr (v # chars)))"
proof -
  have d: "drop 8 (g @ rest) = rest" and t: "take 8 (g @ rest) = g" and ne: "g @ rest \<noteq> []"
    using assms by auto
  show ?thesis
    unfolding collect_bytes.simps[of "g @ rest"] d t using assms ne by auto
qed

lemma collect_bytes_format:
  "is_bytes bs \<Longrightarrow> collect_bytes (concat (map format_08b bs)) = Inr bs"
proof (induction bs)
  case Nil
  then show ?case by (simp add: collect_bytes_Nil)
next
  case (Cons b bs)
  then have b: "b < 256" and bs: "is_bytes bs" by (auto simp: is_bytes_def)
  have "collect_bytes (format_08b b @ concat (map format_08b bs)) = Inr (b # bs)"
    unfolding collect_bytes_cons[OF length_format_08b[OF b]] int_base2_format_08b Cons.IH[OF bs]
    by simp
  then show ?case by simp
qed


lemma split64: "(cp::nat) = (cp div 64) * 64 + cp mod 64"
  by simp

lemma div4096: "(cp::nat) div 4096 = (cp div 64) div 64"
  by (simp add: div_mult2_eq[symmetric])

lemma div262144: "(cp::nat) div 262144 = ((cp div 64) div 64) div 64"
  by (simp add: div_mult2_eq[symmetric])

lemma split3: "(cp::nat) = (cp div 4096) * 4096 + ((cp div 64) mod 64) * 64 + cp mod 64"
proof -
  have "cp div 64 = (cp div 64 div 64) * 64 + (cp div 64) mod 64" by simp
  then show ?thesis using split64[of cp] unfolding div4096 by linarith
qed

lemma split4: "(cp::nat) = (cp div 262144) * 262144 + ((cp div 4096) mod 64) * 4096
     + ((cp div 64) mod 64) * 64 + cp mod 64"
proof -
  have "cp div 4096 = (cp div 4096 div 64) * 64 + (cp div 4096) mod 64" by simp
  moreover have "cp div 4096 div 64 = cp div 262144" by (simp add: div_mult2_eq[symmetric])
  ultimately show ?thesis using split3[of cp] by linarith
qed

lemma step1: "cp < 0x80 \<Longrightarrow> utf8_decode_step (cp # rest) = Decoded cp 1"
  by simp

lemma step2_gen:
  assumes "2 \<le> h" "h < 32" "l < 64"
  shows "utf8_decode_step ((0xC0 + h) # (0x80 + l) # rest) = Decoded (h * 64 + l) 2"
proof -
  have c: "(0xC0 + h) * 64 + (0x80 + l) - (0xC0 * 64 + 0x80) = h * 64 + l"
    by (simp add: algebra_simps)
  show ?thesis using assms unfolding utf8_decode_step.simps c
    by (simp add: is_continuation_byte_def)
qed

lemma step3_gen:
  assumes "h < 16" "m < 64" "l < 64" "h = 0 \<Longrightarrow> 32 \<le> m" "h = 13 \<Longrightarrow> m < 32"
  shows "utf8_decode_step ((0xE0 + h) # (0x80 + m) # (0x80 + l) # rest)
         = Decoded (h * 4096 + m * 64 + l) 3"
proof -
  have c: "(0xE0 + h) * 4096 + (0x80 + m) * 64 + (0x80 + l) - (0xE0 * 4096 + 0x80 * 64 + 0x80)
           = h * 4096 + m * 64 + l"
    by (simp add: algebra_simps)
  show ?thesis using assms unfolding utf8_decode_step.simps c
    by (auto simp: is_continuation_byte_def)
qed

lemma step4_gen:
  assumes "h < 5" "k < 64" "m < 64" "l < 64" "h = 0 \<Longrightarrow> 16 \<le> k" "h = 4 \<Longrightarrow> k < 16"
  shows "utf8_decode_step ((0xF0 + h) # (0x80 + k) # (0x80 + m) # (0x80 + l) # rest)
         = Decoded (h * 262144 + k * 4096 + m * 64 + l) 4"
proof -
  have c: "(0xF0 + h) * 262144 + (0x80 + k) * 4096 + (0x80 + m) * 64 + (0x80 + l)
            - (0xF0 * 262144 + 0x80 * 4096 + 0x80 * 64 + 0x80)
           = h * 262144 + k * 4096 + m * 64 + l"
    by (simp add: algebra_simps)
  show ?thesis using assms unfolding utf8_decode_step.simps c
    by (auto simp: is_continuation_byte_def)
qed

lemma step2:
  assumes "0x80 \<le> cp" "cp < 0x800"
  shows "utf8_decode_step ((0xC0 + cp div 64) # (0x80 + cp mod 64) # rest) = Decoded cp 2"
proof -
  have l: "cp mod 64 < 64" by simp
  have h: "2 \<le> cp div 64" "cp div 64 < 32"
    using assms split64[of cp] l by linarith+
  show ?thesis using step2_gen[OF h l, of rest] split64[of cp] by simp
qed

lemma step3:
  assumes "0x800 \<le> cp" "cp < 0x10000" "\<not> is_surrogate cp"
  shows "utf8_decode_step ((0xE0 + cp div 4096) # (0x80 + (cp div 64) mod 64) # (0x80 + cp mod 64) # rest)
         = Decoded cp 3"
proof -
  have l: "cp mod 64 < 64" and m: "(cp div 64) mod 64 < 64" by simp_all
  have h: "cp div 4096 < 16"
    using assms split3[of cp] l m by linarith
  have d: "cp div 4096 = 0 \<Longrightarrow> 32 \<le> (cp div 64) mod 64"
    using assms split3[of cp] l m by simp
  have e: "cp div 4096 = 13 \<Longrightarrow> (cp div 64) mod 64 < 32"
    using assms split3[of cp] l m unfolding is_surrogate_def by simp
  show ?thesis using step3_gen[OF h m l d e, of rest] split3[of cp] by simp
qed

lemma step4:
  assumes "0x10000 \<le> cp" "cp < 0x110000"
  shows "utf8_decode_step ((0xF0 + cp div 262144) # (0x80 + (cp div 4096) mod 64)
            # (0x80 + (cp div 64) mod 64) # (0x80 + cp mod 64) # rest) = Decoded cp 4"
proof -
  have l: "cp mod 64 < 64" and m: "(cp div 64) mod 64 < 64" and k: "(cp div 4096) mod 64 < 64"
    by simp_all
  have h: "cp div 262144 < 5"
    using assms split4[of cp] l m k by linarith
  have d: "cp div 262144 = 0 \<Longrightarrow> 16 \<le> (cp div 4096) mod 64"
    using assms split4[of cp] l m k by simp
  have e: "cp div 262144 = 4 \<Longrightarrow> (cp div 4096) mod 64 < 16"
    using assms split4[of cp] l m k by simp
  show ?thesis using step4_gen[OF h k m l d e, of rest] split4[of cp] by simp
qed

lemma decode_step_encode_char:
  assumes "utf8_encode_char cp = Inr bs"
  shows "utf8_decode_step (bs @ rest) = Decoded cp (length bs)"
proof -
  consider "cp < 0x80" | "0x80 \<le> cp" "cp < 0x800"
    | "0x800 \<le> cp" "cp < 0x10000" "\<not> is_surrogate cp"
    | "0x10000 \<le> cp" "cp < 0x110000"
    using assms unfolding utf8_encode_char_def by (auto split: if_splits)
  then show ?thesis
  proof cases
    case 1
    then have "bs = [cp]" using assms by (simp add: utf8_encode_char_def)
    then show ?thesis using step1[OF 1] by simp
  next
    case 2
    then have "bs = [0xC0 + cp div 64, 0x80 + cp mod 64]"
      using assms by (simp add: utf8_encode_char_def)
    then show ?thesis using step2[OF 2] by simp
  next
    case 3
    then have "bs = [0xE0 + cp div 4096, 0x80 + (cp div 64) mod 64, 0x80 + cp mod 64]"
      using assms by (simp add: utf8_encode_char_def)
    then show ?thesis using step3[OF 3] by simp
  next
    case 4
    then have "bs = [0xF0 + cp div 262144, 0x80 + (cp div 4096) mod 64,
             0x80 + (cp div 64) mod 64, 0x80 + cp mod 64]"
      using assms by (simp add: utf8_encode_char_def)
    then show ?thesis using step4[OF 4] by simp
  qed
qed
lemma utf8_encode_char_shape:
  assumes "utf8_encode_char cp = Inr bs"
  shows "bs \<noteq> []" "is_bytes bs"
proof -
  have m: "cp mod 64 < 64" "(cp div 64) mod 64 < 64" "(cp div 4096) mod 64 < 64" by simp_all
  show "bs \<noteq> []" using assms by (auto simp: utf8_encode_char_def split: if_splits)
  consider "cp < 0x80" | "0x80 \<le> cp" "cp < 0x800"
    | "0x800 \<le> cp" "cp < 0x10000" "\<not> is_surrogate cp"
    | "0x10000 \<le> cp" "cp < 0x110000"
    using assms unfolding utf8_encode_char_def by (auto split: if_splits)
  then show "is_bytes bs"
  proof cases
    case 1
    then show ?thesis using assms by (auto simp: utf8_encode_char_def is_bytes_def)
  next
    case 2
    then have "cp div 64 < 32" using split64[of cp] by linarith
    then show ?thesis using 2 assms m by (auto simp: utf8_encode_char_def is_bytes_def)
  next
    case 3
    then have "cp div 4096 < 16" using split3[of cp] by linarith
    then show ?thesis using 3 assms m by (auto simp: utf8_encode_char_def is_bytes_def)
  next
    case 4
    then have "cp div 262144 < 5" using split4[of cp] by linarith
    then show ?thesis using 4 assms m by (auto simp: utf8_encode_char_def is_bytes_def)
  qed
qed

lemma is_bytes_append: "is_bytes (xs @ ys) = (is_bytes xs \<and> is_bytes ys)"
  by (simp add: is_bytes_def)

lemma utf8_encode_is_bytes: "utf8_encode t = Inr bs \<Longrightarrow> is_bytes bs"
proof (induction t arbitrary: bs)
  case Nil
  then show ?case by (simp add: is_bytes_def)
next
  case (Cons cp t)
  then show ?case
    by (auto simp: is_bytes_append split: sum.splits dest: utf8_encode_char_shape(2))
qed

lemma utf8_encode_char_ok:
  "cp < 0x110000 \<Longrightarrow> \<not> is_surrogate cp \<Longrightarrow> \<exists>bs. utf8_encode_char cp = Inr bs"
  by (simp add: utf8_encode_char_def)

lemma utf8_encode_ok: "unicode_text t \<Longrightarrow> \<exists>bs. utf8_encode t = Inr bs"
proof (induction t)
  case Nil
  then show ?case by simp
next
  case (Cons cp t)
  then obtain bs where "utf8_encode t = Inr bs" by (auto simp: unicode_text_def)
  moreover obtain cs where "utf8_encode_char cp = Inr cs"
    using Cons.prems utf8_encode_char_ok[of cp] by (auto simp: unicode_text_def)
  ultimately show ?case by simp
qed

lemma utf8_decode_strict_Nil: "utf8_decode_strict [] = Inr []"
  by (subst utf8_decode_strict.simps) simp

lemma utf8_decode_strict_char:
  assumes "utf8_encode_char cp = Inr bs"
  shows "utf8_decode_strict (bs @ rest) =
     (case utf8_decode_strict rest of Inl e \<Rightarrow> Inl e | Inr cs \<Rightarrow> Inr (cp # cs))"
proof -
  have ne: "(bs @ rest = []) = False" and len: "0 < length bs"
    using utf8_encode_char_shape(1)[OF assms] by auto
  have m: "max (Suc 0) (length bs) = length bs"
    using len by (cases bs) (auto simp: max_def)
  show ?thesis
    unfolding utf8_decode_strict.simps[of "bs @ rest"] decode_step_encode_char[OF assms] ne
    by (simp add: m)
qed

lemma utf8_decode_strict_encode:
  "utf8_encode t = Inr bs \<Longrightarrow> utf8_decode_strict bs = Inr t"
proof (induction t arbitrary: bs)
  case Nil
  then show ?case by (simp add: utf8_decode_strict_Nil)
next
  case (Cons cp t)
  from Cons.prems obtain cs rest where
    c: "utf8_encode_char cp = Inr cs" and r: "utf8_encode t = Inr rest" and bs: "bs = cs @ rest"
    by (auto split: sum.splits)
  show ?case
    unfolding bs utf8_decode_strict_char[OF c] Cons.IH[OF r] by simp
qed
lemma utf8_decode_strict_error: "utf8_decode_strict s = Inl e \<Longrightarrow> e = UnicodeDecodeError"
proof (induction s rule: utf8_decode_strict.induct)
  case (1 s)
  show ?case
  proof (cases "s = []")
    case True
    then show ?thesis using 1(2) by (simp add: utf8_decode_strict_Nil)
  next
    case False
    show ?thesis
    proof (cases "utf8_decode_step s")
      case (Decoded c n)
      then show ?thesis
        using 1(1)[OF False Decoded] 1(2) False
        by (subst (asm) utf8_decode_strict.simps) (auto split: sum.splits)
    qed (use 1(2) False in \<open>subst (asm) utf8_decode_strict.simps, simp\<close>)+
  qed
qed

lemma is_bits_take_drop: "is_bits b \<Longrightarrow> is_bits (take n b) \<and> is_bits (drop n b)"
  unfolding is_bits_def list_all_length by simp

lemma collect_bytes_short: "length tail < 8 \<Longrightarrow> collect_bytes tail = Inr []"
proof -
  assume a: "length tail < 8"
  show ?thesis
  proof (cases "tail = []")
    case True
    then show ?thesis by (simp add: collect_bytes_Nil)
  next
    case False
    have d: "drop 8 tail = []" and l: "(length (take 8 tail) = 8) = False"
      and ne: "(tail = []) = False" using a False by auto
    show ?thesis
      unfolding collect_bytes.simps[of tail] Let_def d l ne by (simp add: collect_bytes_Nil)
  qed
qed

lemma collect_bytes_long:
  assumes "8 \<le> length binary"
  shows "collect_bytes binary =
     (case int_base2 (take 8 binary) of Inl e \<Rightarrow> Inl e
      | Inr v \<Rightarrow> (case collect_bytes (drop 8 binary) of Inl e \<Rightarrow> Inl e
                    | Inr chars \<Rightarrow> Inr (v # chars)))"
proof -
  have "length (take 8 binary) = 8" using assms by simp
  from collect_bytes_cons[OF this, of "drop 8 binary"] show ?thesis by simp
qed

lemma collect_bytes_total: "is_bits b \<Longrightarrow> \<exists>cs. collect_bytes b = Inr cs"
proof (induction "length b" arbitrary: b rule: less_induct)
  case less
  show ?case
  proof (cases "length b < 8")
    case True
    then show ?thesis by (simp add: collect_bytes_short)
  next
    case False
    then have len: "8 \<le> length b" by simp
    note d = is_bits_take_drop[OF less.prems, of 8]
    have ne: "take 8 b \<noteq> []" using len by auto
    have i: "int_base2 (take 8 b) = Inr (bits_value 0 (take 8 b))"
      using ne d unfolding int_base2_def by simp
    have "length (drop 8 b) < length b" using len by simp
    from less.hyps[OF this] d obtain cs where cs: "collect_bytes (drop 8 b) = Inr cs"
      by blast
    show ?thesis unfolding collect_bytes_long[OF len] i cs by simp
  qed
qed

lemma collect_bytes_tail:
  "length b mod 8 = 0 \<Longrightarrow> length tail < 8 \<Longrightarrow> collect_bytes (b @ tail) = collect_bytes b"
proof (induction "length b" arbitrary: b rule: less_induct)
  case less
  show ?case
  proof (cases "b = []")
    case True
    then show ?thesis using collect_bytes_short[OF less.prems(2)] by (simp add: collect_bytes_Nil)
  next
    case False
    then have len: "8 \<le> length b" using less.prems(1) by (cases "length b < 8") auto
    then have len': "8 \<le> length (b @ tail)" by simp
    have t: "take 8 (b @ tail) = take 8 b" "drop 8 (b @ tail) = drop 8 b @ tail"
      using len by auto
    have m: "length (drop 8 b) mod 8 = 0" using less.prems(1) len by simp presburger
    have "length (drop 8 b) < length b" using len by simp
    from less.hyps[OF this m less.prems(2)]
    have ih: "collect_bytes (drop 8 b @ tail) = collect_bytes (drop 8 b)" .
    show ?thesis
      unfolding collect_bytes_long[OF len'] collect_bytes_long[OF len] t ih ..
  qed
qed

lemma binary_to_text_total: "is_bits b \<Longrightarrow> \<exists>t. binary_to_text b = Inr t"
proof -
  assume "is_bits b"
  then obtain cs where cs: "collect_bytes b = Inr cs" using collect_bytes_total by blast
  show ?thesis
  proof (cases "utf8_decode_strict cs")
    case (Inl e)
    then have "e = UnicodeDecodeError" by (rule utf8_decode_strict_error)
    then show ?thesis using cs Inl by (simp add: binary_to_text_def)
  next
    case (Inr t)
    then show ?thesis using cs by (simp add: binary_to_text_def)
  qed
qed

lemma binary_to_text_lossy:
  "collect_bytes b = Inr cs \<Longrightarrow> utf8_decode_strict cs = Inl e \<Longrightarrow>
   binary_to_text b = Inr (utf8_decode_ignore cs)"
  using utf8_decode_strict_error[of cs e] by (simp add: binary_to_text_def)

lemma binary_to_text_text_to_binary:
  assumes "utf8_encode t = Inr bs"
  shows "text_to_binary t = Inr (concat (map format_08b bs))"
    and "binary_to_text (concat (map format_08b bs)) = Inr t"
  using assms collect_bytes_format[OF utf8_encode_is_bytes[OF assms]]
    utf8_decode_strict_encode[OF assms]
  by (simp_all add: text_to_binary_def binary_to_text_def)

lemma lengths_format_08b:
  "is_bytes bs \<Longrightarrow> map length (map format_08b bs) = replicate (length bs) 8"
  by (induction bs) (auto simp: is_bytes_def length_format_08b)

section \<open>Lemmas about the embedding loops\<close>

declare embed_pixels_loop.simps [simp del]
declare embed_samples_loop.simps [simp del]

lemma length_overwrite_range [simp]: "length (overwrite_range f r i n) = length r"
  by (simp add: overwrite_range_def)

lemma nth_overwrite_range:
  "j < length r \<Longrightarrow>
   overwrite_range f r i n ! j = (if i \<le> j \<and> j < n then f j (r ! j) else r ! j)"
  by (simp add: overwrite_range_def)

lemma overwrite_range_empty: "n \<le> i \<Longrightarrow> overwrite_range f r i n = r"
  by (rule nth_equalityI) (auto simp: nth_overwrite_range)

lemma overwrite_range_step:
  assumes "i < n"
  shows "overwrite_range f (if i < length r then r[i := f i (r ! i)] else r) (Suc i) n
         = overwrite_range f r i n"
proof (rule nth_equalityI)
  show "length (overwrite_range f (if i < length r then r[i := f i (r ! i)] else r) (Suc i) n)
        = length (overwrite_range f r i n)" by simp
next
  fix j
  assume "j < length (overwrite_range f (if i < length r then r[i := f i (r ! i)] else r) (Suc i) n)"
  then have j: "j < length r" by (simp split: if_splits)
  show "overwrite_range f (if i < length r then r[i := f i (r ! i)] else r) (Suc i) n ! j
        = overwrite_range f r i n ! j"
  proof (cases "i < length r")
    case True
    then show ?thesis using j assms
      by (cases "j = i") (auto simp: nth_overwrite_range)
  next
    case False
    then show ?thesis using j assms by (auto simp: nth_overwrite_range)
  qed
qed

lemma embed_pixels_loop_closed:
  assumes "result < length h" "binary_data < length h" "binary_data \<noteq> result"
    "n \<le> length (h ! result)"
  shows "embed_pixels_loop h binary_data result i n =
         h[result := overwrite_range (\<lambda>j x. (x AND 254) OR (h ! binary_data ! j)) (h ! result) i n]"
  using assms
proof (induction h binary_data result i n rule: embed_pixels_loop.induct)
  case (1 h binary_data result i n)
  let ?f = "\<lambda>j x. (x AND 254) OR (h ! binary_data ! j)"
  show ?case
  proof (cases "i < n")
    case False
    then have "overwrite_range ?f (h ! result) i n = h ! result"
      by (simp add: overwrite_range_empty)
    then show ?thesis using False by (simp add: embed_pixels_loop.simps[of h])
  next
    case True
    let ?r = "h ! result"
    let ?h' = "heap_store h result i ((?r ! i) AND 254 OR (h ! binary_data ! i))"
    have il: "i < length ?r" using True 1(5) by simp
    have h'r: "?h' ! result = ?r[i := ?f i (?r ! i)]"
      using 1(2) by (simp add: heap_store_def)
    have h'b: "?h' ! binary_data = h ! binary_data"
      using 1(3,4) by (simp add: heap_store_def)
    have len: "length ?h' = length h" by (simp add: heap_store_def)
    have ih: "embed_pixels_loop ?h' binary_data result (Suc i) n =
       ?h'[result := overwrite_range (\<lambda>j x. (x AND 254) OR (?h' ! binary_data ! j)) (?h' ! result) (Suc i) n]"
      using 1(1)[OF True] 1(2-5) len h'r by simp
    have "embed_pixels_loop h binary_data result i n
          = embed_pixels_loop ?h' binary_data result (Suc i) n"
      using True by (subst embed_pixels_loop.simps) simp
    also have "\<dots> = ?h'[result := overwrite_range ?f (?r[i := ?f i (?r ! i)]) (Suc i) n]"
      unfolding ih h'b h'r ..
    also have "\<dots> = h[result := overwrite_range ?f (?r[i := ?f i (?r ! i)]) (Suc i) n]"
      by (simp add: heap_store_def)
    also have "overwrite_range ?f (?r[i := ?f i (?r ! i)]) (Suc i) n = overwrite_range ?f ?r i n"
      using overwrite_range_step[OF True, of ?f ?r] il by simp
    finally show ?thesis .
  qed
qed

lemma int16_and_numpy1:
  "numpy_major rt < 2 \<Longrightarrow> int16_and rt x 0xFFFE = Inr (x AND 0xFFFE)"
  by (simp add: int16_and_def)

lemma int16_and_numpy2:
  "2 \<le> numpy_major rt \<Longrightarrow> int16_and rt x 0xFFFE = Inl OverflowError"
  by (simp add: int16_and_def)

lemma embed_samples_loop_overflow:
  assumes "2 \<le> numpy_major rt" "i < n" "i < length (h ! stego_data)"
  shows "embed_samples_loop rt h stego_data bm i n = Inl OverflowError"
  using assms int16_and_numpy2[OF assms(1)]
  by (subst embed_samples_loop.simps) simp

lemma embed_samples_loop_closed:
  assumes "stego_data < length h" "numpy_major rt < 2"
  shows "embed_samples_loop rt h stego_data bm i n =
         Inr (h[stego_data := overwrite_range (\<lambda>j x. (x AND 0xFFFE) OR int_of_digit (bm ! j))
                           (h ! stego_data) i n])"
  using assms
proof (induction rt h stego_data bm i n rule: embed_samples_loop.induct)
  case (1 rt h stego_data bm i n)
  let ?f = "\<lambda>j x. (x AND 0xFFFE) OR (int_of_digit (bm ! j) :: 16 word)"
  let ?r = "h ! stego_data"
  show ?case
  proof (cases "i < n")
    case False
    then have "overwrite_range ?f ?r i n = ?r" by (simp add: overwrite_range_empty)
    then show ?thesis using False by (simp add: embed_samples_loop.simps[of rt h])
  next
    case True
    show ?thesis
    proof (cases "i < length ?r")
      case il: True
      let ?h' = "heap_store h stego_data i (?f i (?r ! i))"
      have m: "int16_and rt (?r ! i) 0xFFFE = Inr (?r ! i AND 0xFFFE)"
        using 1(4) by (rule int16_and_numpy1)
      have h'r: "?h' ! stego_data = ?r[i := ?f i (?r ! i)]"
        using 1(3) by (simp add: heap_store_def)
      have len: "stego_data < length ?h'" using 1(3) by (simp add: heap_store_def)
      have ih: "embed_samples_loop rt ?h' stego_data bm (Suc i) n =
         Inr (?h'[stego_data := overwrite_range ?f (?h' ! stego_data) (Suc i) n])"
        using 1(1)[OF True il m len 1(4)] .
      have "embed_samples_loop rt h stego_data bm i n
            = embed_samples_loop rt ?h' stego_data bm (Suc i) n"
        using True il m by (subst embed_samples_loop.simps) simp
      also have "\<dots> = Inr (?h'[stego_data := overwrite_range ?f ?r i n])"
        unfolding ih h'r using overwrite_range_step[OF True, of ?f ?r] il by simp
      also have "?h'[stego_data := overwrite_range ?f ?r i n]
                 = h[stego_data := overwrite_range ?f ?r i n]"
        by (simp add: heap_store_def)
      finally show ?thesis .
    next
      case nil: False
      have ih: "embed_samples_loop rt h stego_data bm (Suc i) n =
         Inr (h[stego_data := overwrite_range ?f ?r (Suc i) n])"
        using 1(2)[OF True nil 1(3) 1(4)] .
      have "embed_samples_loop rt h stego_data bm i n
            = embed_samples_loop rt h stego_data bm (Suc i) n"
        using True nil by (subst embed_samples_loop.simps) simp
      also have "\<dots> = Inr (h[stego_data := overwrite_range ?f ?r i n])"
        unfolding ih using overwrite_range_step[OF True, of ?f ?r] nil by simp
      finally show ?thesis .
    qed
  qed
qed
lemma mask8: "(254 :: 8 word) = NOT 1" by simp
lemma mask16: "(0xFFFE :: 16 word) = NOT 1" by simp

lemma lsb_set_low:
  fixes x b :: "'a::len word"
  assumes "b = 0 \<or> b = 1"
  shows "((x AND NOT 1) OR b) AND 1 = b"
proof (rule bit_word_eqI)
  fix n assume "n < LENGTH('a)"
  from assms show "bit (((x AND NOT 1) OR b) AND 1) n = bit b n"
    by (elim disjE) (auto simp: bit_and_iff bit_or_iff bit_not_iff bit_1_iff)
qed

lemma bit_drop_1: "bit (drop_bit 1 (w :: 'a::len word)) n = bit w (Suc n)"
  by (simp add: bit_drop_bit_eq)

lemma lsb_set_high:
  fixes x b :: "'a::len word"
  assumes "b = 0 \<or> b = 1"
  shows "drop_bit 1 ((x AND NOT 1) OR b) = drop_bit 1 x"
proof (rule bit_word_eqI)
  fix n assume "n < LENGTH('a)"
  have "bit ((x AND NOT 1) OR b) (Suc n) = bit x (Suc n)"
    using assms
    by (elim disjE) (auto simp: bit_and_iff bit_or_iff bit_not_iff bit_1_iff dest: bit_imp_le_length)
  then show "bit (drop_bit 1 ((x AND NOT 1) OR b)) n = bit (drop_bit 1 x) n"
    unfolding bit_drop_1 .
qed

lemma lsb_and_1: "(x :: 'a::len word) AND 1 = 0 \<or> x AND 1 = 1"
  by (simp add: and_one_eq mod2_eq_if)

lemma frombuffer_tobytes: "frombuffer_int16 (tobytes_int16 ws) = Inr ws"
proof (induction ws)
  case Nil
  then show ?case by (simp add: tobytes_int16_def)
next
  case (Cons w ws)
  have "word_of_nat (unat w mod 256 + 256 * (unat w div 256)) = w" by simp
  then show ?case using Cons by (simp add: tobytes_int16_def)
qed
lemma int_of_digit_01: "(int_of_digit c :: 'a::len word) = 0 \<or> (int_of_digit c :: 'a::len word) = 1"
  by (simp add: int_of_digit_def)

lemma fast_embed_pixels_closed:
  assumes "binary_data < length h" "flat_pixels < length h"
    "length (h ! binary_data) \<le> length (h ! flat_pixels)"
  shows "fast_embed_pixels h binary_data flat_pixels =
     (length h, h @ [overwrite_range (\<lambda>j x. (x AND 254) OR (h ! binary_data ! j))
                       (h ! flat_pixels) 0 (length (h ! binary_data))])"
proof -
  let ?h1 = "h @ [h ! flat_pixels]"
  have b: "?h1 ! binary_data = h ! binary_data" and f: "?h1 ! flat_pixels = h ! flat_pixels"
    and r: "?h1 ! length h = h ! flat_pixels"
    using assms by (simp_all add: nth_append)
  have n: "min (length (h ! binary_data)) (length (h ! flat_pixels)) = length (h ! binary_data)"
    using assms(3) by simp
  have "embed_pixels_loop ?h1 binary_data (length h) 0 (length (h ! binary_data)) =
        ?h1[length h := overwrite_range (\<lambda>j x. (x AND 254) OR (?h1 ! binary_data ! j))
                       (?h1 ! length h) 0 (length (h ! binary_data))]"
    using assms by (intro embed_pixels_loop_closed) (simp_all add: nth_append)
  then show ?thesis
    unfolding fast_embed_pixels_def np_copy_def b f r by (simp add: n b f)
qed

section \<open>Lemmas about searching for the marker\<close>










lemma image_ok_capacity:
  "image_ok a \<Longrightarrow>
   shape a ! 0 * shape a ! 1 * (if length (shape a) > 2 then shape a ! 2 else 1)
     = length (pixels a)"
  by (simp add: image_ok_def)













lemma example_open:
  "Image_open example_world ''small.png'' = Inr small_image"
  "Image_open example_world ''exact.png'' = Inr exact_image"
  "Image_open example_world ''rgb.png'' = Inr rgb_100x100"
  "wave_open example_world ''small.wav'' = Inr small_wave"
  "wave_open example_world ''exact.wav'' = Inr exact_wave"
  "wave_open example_world ''long.wav'' = Inr long_wave"
  "wave_open example_world ''rate0.wav'' = Inr rate0_wave"
  "Image_open example_world ''missing.png'' = Inl FileError"
  "wave_open example_world ''missing.wav'' = Inl FileError"
  by (simp_all add: example_world_def Image_open_def wave_open_def)

lemma example_frames:
  "frombuffer_int16 (frames small_wave) = Inr (replicate 15 0)"
  "frombuffer_int16 (frames exact_wave) = Inr (replicate 16 (- 1))"
  "frombuffer_int16 (frames long_wave) = Inr (replicate 400 0)"
  "frombuffer_int16 (frames rate0_wave) = Inr (replicate 16 0)"
  by (simp_all add: small_wave_def exact_wave_def long_wave_def rate0_wave_def
        frombuffer_tobytes)


lemma example_image_ok: "image_ok small_image" "image_ok exact_image" "image_ok rgb_100x100"
  by (simp_all add: image_ok_def small_image_def exact_image_def rgb_100x100_def)


lemma example_runtime:
  "stdout_ok numpy1" "numpy_major numpy1 < 2"
  "stdout_ok numpy2" "2 \<le> numpy_major numpy2"
  "\<not> stdout_ok no_stdout" "numpy_major no_stdout < 2"
  by (simp_all add: numpy1_def numpy2_def no_stdout_def)




section \<open>Lemmas about the cipher box\<close>

declare cbc_encrypt.simps [simp del]
declare cbc_decrypt.simps [simp del]

lemma b64_value_char: "v < 64 \<Longrightarrow> b64_value (b64_char v) = Some v"
  by (auto simp: b64_value_def b64_char_def)

lemma b64_char_not_pad: "b64_char v \<noteq> 61"
  by (auto simp: b64_char_def)

lemma b64_char_ascii: "b64_char v < 128"
  by (auto simp: b64_char_def)

lemma a2b_step:
  assumes "v < 64"
  shows "a2b_base64_loop (b64_char v # rest) quad_pos leftchar pads out =
     (if quad_pos = 0 then a2b_base64_loop rest 1 v 0 out
      else if quad_pos = 1
      then a2b_base64_loop rest 2 (v mod 16) 0 (out @ [leftchar * 4 + v div 16])
      else if quad_pos = 2
      then a2b_base64_loop rest 3 (v mod 4) 0 (out @ [leftchar * 16 + v div 4])
      else a2b_base64_loop rest 0 0 0 (out @ [leftchar * 64 + v]))"
  using b64_value_char[OF assms] b64_char_not_pad[of v] by simp

lemma sextets:
  assumes "a < 256" "b < 256" "c < (256::nat)"
  shows "a div 4 < 64" "(a mod 4) * 16 + b div 16 < 64" "(b mod 16) * 4 + c div 64 < 64"
    "c mod 64 < 64" "(a mod 4) * 16 < 64" "(b mod 16) * 4 < 64"
  using assms by simp_all

lemma regroup:
  assumes "a < 256" "b < 256" "c < (256::nat)"
  shows "a div 4 * 4 + ((a mod 4) * 16 + b div 16) div 16 = a"
    "((a mod 4) * 16 + b div 16) mod 16 * 16 + ((b mod 16) * 4 + c div 64) div 4 = b"
    "((b mod 16) * 4 + c div 64) mod 4 * 64 + c mod 64 = c"
    "a div 4 * 4 + ((a mod 4) * 16) div 16 = a"
    "((a mod 4) * 16 + b div 16) mod 16 * 16 + ((b mod 16) * 4) div 4 = b"
proof -
  have b16: "b div 16 < 16" and c64: "c div 64 < 4" using assms by simp_all
  have 1: "((a mod 4) * 16 + b div 16) div 16 = a mod 4" using b16 by simp
  have 2: "((a mod 4) * 16 + b div 16) mod 16 = b div 16" using b16 by simp
  have 3: "((b mod 16) * 4 + c div 64) div 4 = b mod 16" using c64 by simp
  have 4: "((b mod 16) * 4 + c div 64) mod 4 = c div 64" using c64 by simp
  show "a div 4 * 4 + ((a mod 4) * 16 + b div 16) div 16 = a" unfolding 1 by simp
  show "((a mod 4) * 16 + b div 16) mod 16 * 16 + ((b mod 16) * 4 + c div 64) div 4 = b"
    unfolding 2 3 by simp
  show "((b mod 16) * 4 + c div 64) mod 4 * 64 + c mod 64 = c" unfolding 4 by simp
  show "a div 4 * 4 + ((a mod 4) * 16) div 16 = a" by simp
  show "((a mod 4) * 16 + b div 16) mod 16 * 16 + ((b mod 16) * 4) div 4 = b"
    unfolding 2 by simp
qed

lemma a2b_b64encode:
  "is_bytes bs \<Longrightarrow> a2b_base64_loop (b64encode bs) 0 0 0 out = Inr (out @ bs)"
proof (induction bs arbitrary: out rule: b64encode.induct)
  case 1
  then show ?case by simp
next
  case (2 a)
  then have a: "a < 256" by (simp add: is_bytes_def)
  note s = sextets[OF a a a] and r = regroup[OF a a a]
  show ?case
    unfolding b64encode.simps a2b_step[OF s(1)] a2b_step[OF s(5)]
    using r(4) by simp
next
  case (3 a b)
  then have a: "a < 256" and b: "b < 256" by (simp_all add: is_bytes_def)
  note s = sextets[OF a b b] and r = regroup[OF a b b]
  show ?case
    unfolding b64encode.simps a2b_step[OF s(1)] a2b_step[OF s(2)] a2b_step[OF s(6)]
    using r(1,5) by simp
next
  case (4 a b c rest)
  then have a: "a < 256" and b: "b < 256" and c: "c < 256" and rest: "is_bytes rest"
    by (simp_all add: is_bytes_def)
  note s = sextets[OF a b c] and r = regroup[OF a b c]
  have "a2b_base64_loop (b64encode (a # b # c # rest)) 0 0 0 out
        = a2b_base64_loop (b64encode rest) 0 0 0 (out @ [a, b, c])"
    unfolding b64encode.simps append_Cons append_Nil
      a2b_step[OF s(1)] a2b_step[OF s(2)] a2b_step[OF s(3)] a2b_step[OF s(4)]
    using r(1,2,3) by simp
  then show ?case using "4.IH"[OF rest, of "out @ [a, b, c]"] by simp
qed

lemma b64decode_b64encode: "is_bytes bs \<Longrightarrow> b64decode (b64encode bs) = Inr bs"
  using a2b_b64encode[of bs "[]"] by (simp add: b64decode_def)

lemma b64encode_ascii: "list_all (\<lambda>c. c < 128) (b64encode bs)"
  by (induction bs rule: b64encode.induct) (simp_all add: b64_char_ascii)

lemma utf8_encode_ascii: "list_all (\<lambda>c. c < 128) s \<Longrightarrow> utf8_encode s = Inr s"
  by (induction s) (simp_all add: utf8_encode_char_def)

lemma utf8_decode_strict_ascii:
  "list_all (\<lambda>c. c < 128) s \<Longrightarrow> utf8_decode_strict s = Inr s"
  using utf8_encode_ascii utf8_decode_strict_encode by blast

lemma ascii_unicode_text: "list_all (\<lambda>c. c < 128) s \<Longrightarrow> unicode_text s"
  unfolding unicode_text_def list_all_length by (auto simp: is_surrogate_def)
lemma xor_byte: "a < 256 \<Longrightarrow> b < 256 \<Longrightarrow> (a::nat) XOR b < 256"
proof -
  assume "a < 256" "b < 256"
  then have "take_bit 8 a = a" "take_bit 8 b = b" by (simp_all add: take_bit_nat_eq_self_iff)
  then have "take_bit 8 (a XOR b) = a XOR b" by (simp add: take_bit_xor)
  then show ?thesis using take_bit_nat_eq_self_iff[of 8 "a XOR b"] by simp
qed

lemma length_xor_bytes: "length (xor_bytes a b) = min (length a) (length b)"
  by (simp add: xor_bytes_def)

lemma is_bytes_xor: "is_bytes a \<Longrightarrow> is_bytes b \<Longrightarrow> is_bytes (xor_bytes a b)"
  unfolding is_bytes_def xor_bytes_def list_all_length by (simp add: xor_byte)

lemma xor_bytes_cancel: "length a = length b \<Longrightarrow> xor_bytes (xor_bytes a b) b = a"
  by (rule nth_equalityI) (simp_all add: xor_bytes_def xor.assoc)

lemma is_bytes_take_drop: "is_bytes d \<Longrightarrow> is_bytes (take n d) \<and> is_bytes (drop n d)"
  unfolding is_bytes_def list_all_length by simp

lemma cbc_encrypt_Nil: "cbc_encrypt L key prev [] = []"
  by (subst cbc_encrypt.simps) simp

lemma cbc_decrypt_Nil: "cbc_decrypt L key prev [] = []"
  by (subst cbc_decrypt.simps) simp

lemma cbc_round_trip:
  assumes ok: "crypto_lib_ok L"
  shows "length data mod 16 = 0 \<Longrightarrow> is_bytes data \<Longrightarrow> length prev = 16 \<Longrightarrow> is_bytes prev \<Longrightarrow>
         length (cbc_encrypt L key prev data) = length data
       \<and> is_bytes (cbc_encrypt L key prev data)
       \<and> cbc_decrypt L key prev (cbc_encrypt L key prev data) = data"
proof (induction "length data" arbitrary: data prev rule: less_induct)
  case less
  show ?case
  proof (cases "data = []")
    case True
    then show ?thesis by (simp add: cbc_encrypt_Nil cbc_decrypt_Nil is_bytes_def)
  next
    case False
    then have len: "16 \<le> length data" using less.prems(1) by (cases "length data < 16") auto
    let ?b = "take 16 data" and ?r = "drop 16 data"
    let ?x = "xor_bytes ?b prev"
    let ?c = "aes_encrypt_block L key ?x"
    have lb: "length ?b = 16" using len by simp
    have lx: "length ?x = 16" using lb less.prems(3) by (simp add: length_xor_bytes)
    have bx: "is_bytes ?x"
      using is_bytes_xor is_bytes_take_drop[OF less.prems(2)] less.prems(4) by blast
    from ok lx bx have c: "length ?c = 16" "is_bytes ?c" "aes_decrypt_block L key ?c = ?x"
      unfolding crypto_lib_ok_def by blast+
    have rm: "length ?r mod 16 = 0" using less.prems(1) len by simp presburger
    have rl: "length ?r < length data" using len by simp
    have rb: "is_bytes ?r" using is_bytes_take_drop[OF less.prems(2)] by blast
    note ih = less.hyps[OF rl rm rb c(1) c(2)]
    have e: "cbc_encrypt L key prev data = ?c @ cbc_encrypt L key ?c ?r"
      using False by (subst cbc_encrypt.simps) simp
    let ?e = "cbc_encrypt L key ?c ?r"
    have t: "take 16 (?c @ ?e) = ?c" "drop 16 (?c @ ?e) = ?e" "(?c @ ?e = []) = False"
      using c(1) by auto
    have d: "cbc_decrypt L key prev (?c @ ?e) = xor_bytes (aes_decrypt_block L key ?c) prev
               @ cbc_decrypt L key ?c ?e"
      unfolding cbc_decrypt.simps[of L key prev "?c @ ?e"] t by simp
    have x: "xor_bytes ?x prev = ?b"
      using lb less.prems(3) by (simp add: xor_bytes_cancel)
    have "cbc_decrypt L key prev (cbc_encrypt L key prev data) = ?b @ ?r"
      unfolding e d c(3) x using ih by simp
    then have 3: "cbc_decrypt L key prev (cbc_encrypt L key prev data) = data" by simp
    have 1: "length (cbc_encrypt L key prev data) = length data"
      unfolding e using ih c(1) len by simp
    have 2: "is_bytes (cbc_encrypt L key prev data)"
      unfolding e using ih c(2) by (simp add: is_bytes_append)
    show ?thesis using 1 2 3 by blast
  qed
qed

lemma length_pad: "length (pad d 16) mod 16 = 0" "length d < length (pad d 16)"
proof -
  have "length (pad d 16) = length d + (16 - length d mod 16)" by (simp add: pad_def Let_def)
  then show "length (pad d 16) mod 16 = 0" "length d < length (pad d 16)" by presburger+
qed

lemma is_bytes_pad: "is_bytes d \<Longrightarrow> is_bytes (pad d 16)"
  unfolding is_bytes_def pad_def Let_def list_all_length
  by (auto simp: nth_append)

lemma unpad_pad: "unpad (pad d 16) 16 = Inr d"
proof -
  let ?n = "16 - length d mod 16"
  have n: "1 \<le> ?n" "?n \<le> 16" by simp_all
  have p: "pad d 16 = d @ replicate ?n ?n" by (simp add: pad_def Let_def)
  have l: "length (d @ replicate ?n ?n) = length d + ?n" by simp
  have last: "last (d @ replicate ?n ?n) = ?n" using n by (cases ?n) auto
  have m: "(length d + ?n) mod 16 = 0" by presburger
  show ?thesis
    unfolding p unpad_def Let_def l last using n m by (simp, arith)
qed
lemma encrypt_message_ok:
  assumes ok: "crypto_lib_ok L"
    and m: "utf8_encode message = Inr mb" and p: "utf8_encode password = Inr pb"
    and iv: "length iv = 16" "is_bytes iv"
  shows "encrypt_message L message password iv
           = Inr (b64encode (iv @ cbc_encrypt L (sha256 L pb) iv (pad mb 16)))"
    and "decrypt_message L (b64encode (iv @ cbc_encrypt L (sha256 L pb) iv (pad mb 16))) password
           = Inr message"
proof -
  let ?key = "sha256 L pb"
  let ?padded = "pad mb 16"
  let ?E = "cbc_encrypt L ?key iv ?padded"
  let ?c = "b64encode (iv @ ?E)"
  have k: "derive_key L password = Inr ?key" using p by (simp add: derive_key_def)
  have kl: "length ?key = 32" using ok by (simp add: crypto_lib_ok_def)
  have new: "AES_new ?key iv = Inr \<lparr>cipher_key = ?key, cipher_iv = iv\<rparr>"
    using kl iv(1) by (simp add: AES_new_def)
  have pl: "length ?padded mod 16 = 0" by (rule length_pad)
  have pb: "is_bytes ?padded" using utf8_encode_is_bytes[OF m] by (rule is_bytes_pad)
  from cbc_round_trip[OF ok pl pb iv, of ?key]
  have E: "length ?E = length ?padded" "is_bytes ?E" "cbc_decrypt L ?key iv ?E = ?padded"
    by blast+
  have enc: "cipher_encrypt L \<lparr>cipher_key = ?key, cipher_iv = iv\<rparr> ?padded = Inr ?E"
    using pl by (simp add: cipher_encrypt_def)
  have dec: "utf8_decode_strict ?c = Inr ?c"
    by (rule utf8_decode_strict_ascii) (rule b64encode_ascii)
  show 1: "encrypt_message L message password iv = Inr ?c"
    by (simp add: encrypt_message_def encrypt_message_try_def k new m enc dec)
  have ce: "utf8_encode ?c = Inr ?c"
    by (rule utf8_encode_ascii) (rule b64encode_ascii)
  have b: "b64decode ?c = Inr (iv @ ?E)"
    using iv(2) E(2) by (intro b64decode_b64encode) (simp add: is_bytes_append)
  have t: "take 16 (iv @ ?E) = iv" "drop 16 (iv @ ?E) = ?E" using iv(1) by simp_all
  have cd: "cipher_decrypt L \<lparr>cipher_key = ?key, cipher_iv = iv\<rparr> ?E = Inr ?padded"
    using E(1,3) pl by (simp add: cipher_decrypt_def)
  have u: "unpad ?padded 16 = Inr mb" by (rule unpad_pad)
  have d: "utf8_decode_strict mb = Inr message" using m by (rule utf8_decode_strict_encode)
  show "decrypt_message L ?c password = Inr message"
    by (simp add: decrypt_message_def decrypt_message_try_def k ce b t new cd u d
          del: take_append drop_append)
qed

lemma b64encode_inj_iv:
  assumes "is_bytes (iv1 @ e1)" "is_bytes (iv2 @ e2)" "length iv1 = length iv2"
    "b64encode (iv1 @ e1) = b64encode (iv2 @ e2)"
  shows "iv1 = iv2"
proof -
  have "b64decode (b64encode (iv1 @ e1)) = b64decode (b64encode (iv2 @ e2))"
    using assms(4) by simp
  then have "iv1 @ e1 = iv2 @ e2"
    using b64decode_b64encode[OF assms(1)] b64decode_b64encode[OF assms(2)] by simp
  then show ?thesis using assms(3) by simp
qed

lemma encrypted_is_bytes:
  assumes ok: "crypto_lib_ok L" and m: "utf8_encode message = Inr mb"
    and iv: "length iv = 16" "is_bytes iv"
  shows "is_bytes (iv @ cbc_encrypt L key iv (pad mb 16))"
  using cbc_round_trip[OF ok length_pad(1) is_bytes_pad[OF utf8_encode_is_bytes[OF m]] iv, of key]
    iv(2) by (simp add: is_bytes_append)
lemma is_bytes_replicate: "x < 256 \<Longrightarrow> is_bytes (replicate n x)"
  unfolding is_bytes_def list_all_length by simp

lemma toy_lib_ok: "crypto_lib_ok toy_lib"
proof -
  let ?m = "replicate 16 (255 :: nat)"
  have m: "is_bytes ?m" by (rule is_bytes_replicate) simp
  have "length (xor_bytes b ?m) = 16 \<and> is_bytes (xor_bytes b ?m)
        \<and> xor_bytes (xor_bytes b ?m) ?m = b" if "length b = 16" "is_bytes b" for b
    using that m by (simp add: length_xor_bytes is_bytes_xor xor_bytes_cancel)
  then show ?thesis unfolding crypto_lib_ok_def toy_lib_def by simp
qed







section \<open>Marker patterns inside the payload\<close>








section \<open>The pipeline round trip (C1)\<close>



section \<open>The frame effect of embedding (C2)\<close>

text \<open>
  Claim C2. For a sample array \<open>s\<close> and a bit string \<open>b\<close> no longer than \<open>s\<close>, the embedding
  allocates a new array and leaves every array that existed before, \<open>s\<close> included, as it
  was; in the new array the element at an index below \<open>len(b)\<close> has its lowest bit equal
  to the bit of \<open>b\<close> and its other bits as in \<open>s\<close>, and the elements from \<open>len(b)\<close> on are
  those of \<open>s\<close>. This holds of \<open>fast_embed_pixels\<close> on 8-bit samples, whatever the
  interpreter. Of the loop of \<open>hide_message_in_audio\<close> on 16-bit samples it holds before
  NumPy 2 only: from NumPy 2 on the mask \<open>0xFFFE\<close> of line 39 does not fit \<open>int16\<close>, the
  first iteration raises \<open>OverflowError\<close> and the loop gives no array at all.
\<close>

theorem embed_frame_effect:
  assumes "binary_data < length h" "flat_pixels < length h"
    and "h ! binary_data = map int_of_digit b"
    and "length b \<le> length (h ! flat_pixels)"
    and "audio_data < length g"
    and "length b \<le> length (g ! audio_data)"
  shows "(case fast_embed_pixels h binary_data flat_pixels of
            (result, h2) \<Rightarrow>
              result = length h \<and> take (length h) h2 = h
              \<and> length (h2 ! result) = length (h ! flat_pixels)
              \<and> (\<forall>i < length b.
                    (h2 ! result ! i) AND 1 = int_of_digit (b ! i)
                  \<and> drop_bit 1 (h2 ! result ! i) = drop_bit 1 (h ! flat_pixels ! i))
              \<and> (\<forall>j. length b \<le> j \<and> j < length (h ! flat_pixels)
                    \<longrightarrow> h2 ! result ! j = h ! flat_pixels ! j))
       \<and> (case np_copy g audio_data of
            (stego_data, g1) \<Rightarrow>
              stego_data = length g
              \<and> (2 \<le> numpy_major rt \<and> b \<noteq> [] \<longrightarrow>
                   embed_samples_loop rt g1 stego_data b 0 (length b) = Inl OverflowError)
              \<and> (numpy_major rt < 2 \<longrightarrow>
                   (\<exists>g2. embed_samples_loop rt g1 stego_data b 0 (length b) = Inr g2
                      \<and> take (length g) g2 = g
                      \<and> length (g2 ! stego_data) = length (g ! audio_data)
                      \<and> (\<forall>i < length b.
                            (g2 ! stego_data ! i) AND 1 = int_of_digit (b ! i)
                          \<and> drop_bit 1 (g2 ! stego_data ! i) = drop_bit 1 (g ! audio_data ! i))
                      \<and> (\<forall>j. length b \<le> j \<and> j < length (g ! audio_data)
                            \<longrightarrow> g2 ! stego_data ! j = g ! audio_data ! j))))"
proof (rule conjI)
  let ?s = "h ! flat_pixels"
  let ?r = "overwrite_range (\<lambda>j x. (x AND 254) OR (h ! binary_data ! j)) ?s 0 (length (h ! binary_data))"
  have lb: "length (h ! binary_data) = length b" using assms(3) by simp
  have c: "fast_embed_pixels h binary_data flat_pixels = (length h, h @ [?r])"
    using assms(1,2,4) lb by (intro fast_embed_pixels_closed) simp_all
  have low: "(?r ! i) AND 1 = int_of_digit (b ! i)"
    and high: "drop_bit 1 (?r ! i) = drop_bit 1 (?s ! i)" if "i < length b" for i
  proof -
    have i: "i < length ?s" using that assms(4) by simp
    have e: "?r ! i = (?s ! i AND NOT 1) OR int_of_digit (b ! i)"
      using that i lb assms(3) by (simp add: nth_overwrite_range mask8)
    show "(?r ! i) AND 1 = int_of_digit (b ! i)"
      unfolding e by (rule lsb_set_low) (rule int_of_digit_01)
    show "drop_bit 1 (?r ! i) = drop_bit 1 (?s ! i)"
      unfolding e by (rule lsb_set_high) (rule int_of_digit_01)
  qed
  have rest: "?r ! j = ?s ! j" if "length b \<le> j" "j < length ?s" for j
    using that lb by (simp add: nth_overwrite_range)
  show "case fast_embed_pixels h binary_data flat_pixels of
            (result, h2) \<Rightarrow>
              result = length h \<and> take (length h) h2 = h
              \<and> length (h2 ! result) = length (h ! flat_pixels)
              \<and> (\<forall>i < length b.
                    (h2 ! result ! i) AND 1 = int_of_digit (b ! i)
                  \<and> drop_bit 1 (h2 ! result ! i) = drop_bit 1 (h ! flat_pixels ! i))
              \<and> (\<forall>j. length b \<le> j \<and> j < length (h ! flat_pixels)
                    \<longrightarrow> h2 ! result ! j = h ! flat_pixels ! j)"
    unfolding c using low high rest by simp
next
  let ?s = "g ! audio_data"
  let ?r = "overwrite_range (\<lambda>j x. (x AND 0xFFFE) OR (int_of_digit (b ! j) :: 16 word)) ?s 0 (length b)"
  let ?g1 = "g @ [?s]"
  have c: "embed_samples_loop rt ?g1 (length g) b 0 (length b) = Inr (g @ [?r])"
    if "numpy_major rt < 2"
    using that by (subst embed_samples_loop_closed) simp_all
  have ov: "embed_samples_loop rt ?g1 (length g) b 0 (length b) = Inl OverflowError"
    if "2 \<le> numpy_major rt" "b \<noteq> []"
  proof (rule embed_samples_loop_overflow[OF that(1)])
    show "0 < length b" using that(2) by simp
    then have "0 < length (g ! audio_data)" using assms(6) by linarith
    then show "0 < length (?g1 ! length g)" by simp
  qed
  have low: "(?r ! i) AND 1 = int_of_digit (b ! i)"
    and high: "drop_bit 1 (?r ! i) = drop_bit 1 (?s ! i)" if "i < length b" for i
  proof -
    have i: "i < length ?s" using that assms(6) by simp
    have e: "?r ! i = (?s ! i AND NOT 1) OR int_of_digit (b ! i)"
      using that i by (simp add: nth_overwrite_range mask16)
    show "(?r ! i) AND 1 = int_of_digit (b ! i)"
      unfolding e by (rule lsb_set_low) (rule int_of_digit_01)
    show "drop_bit 1 (?r ! i) = drop_bit 1 (?s ! i)"
      unfolding e by (rule lsb_set_high) (rule int_of_digit_01)
  qed
  have rest: "?r ! j = ?s ! j" if "length b \<le> j" "j < length ?s" for j
    using that by (simp add: nth_overwrite_range)
  have ok: "\<exists>g2. embed_samples_loop rt ?g1 (length g) b 0 (length b) = Inr g2
                      \<and> take (length g) g2 = g
                      \<and> length (g2 ! length g) = length (g ! audio_data)
                      \<and> (\<forall>i < length b.
                            (g2 ! length g ! i) AND 1 = int_of_digit (b ! i)
                          \<and> drop_bit 1 (g2 ! length g ! i) = drop_bit 1 (g ! audio_data ! i))
                      \<and> (\<forall>j. length b \<le> j \<and> j < length (g ! audio_data)
                            \<longrightarrow> g2 ! length g ! j = g ! audio_data ! j)"
    if "numpy_major rt < 2"
    unfolding c[OF that] using low high rest by simp
  show "case np_copy g audio_data of
            (stego_data, g1) \<Rightarrow>
              stego_data = length g
              \<and> (2 \<le> numpy_major rt \<and> b \<noteq> [] \<longrightarrow>
                   embed_samples_loop rt g1 stego_data b 0 (length b) = Inl OverflowError)
              \<and> (numpy_major rt < 2 \<longrightarrow>
                   (\<exists>g2. embed_samples_loop rt g1 stego_data b 0 (length b) = Inr g2
                      \<and> take (length g) g2 = g
                      \<and> length (g2 ! stego_data) = length (g ! audio_data)
                      \<and> (\<forall>i < length b.
                            (g2 ! stego_data ! i) AND 1 = int_of_digit (b ! i)
                          \<and> drop_bit 1 (g2 ! stego_data ! i) = drop_bit 1 (g ! audio_data ! i))
                      \<and> (\<forall>j. length b \<le> j \<and> j < length (g ! audio_data)
                            \<longrightarrow> g2 ! stego_data ! j = g ! audio_data ! j)))"
    unfolding np_copy_def prod.case using ov ok by blast
qed

text \<open>
  An instance: two bits into three pixels, and into three samples under NumPy 1 and under
  NumPy 2.
\<close>

theorem embed_frame_effect_witness:
  "(1::nat) < length ([[0x52, 0xFF, 0x07], map int_of_digit ''10''] :: 8 word list list)
   \<and> (0::nat) < length ([[0x52, 0xFF, 0x07], map int_of_digit ''10''] :: 8 word list list)
   \<and> ([[0x52, 0xFF, 0x07], map int_of_digit ''10''] :: 8 word list list) ! 1 = map int_of_digit ''10''
   \<and> length ''10'' \<le> length (([[0x52, 0xFF, 0x07], map int_of_digit ''10''] :: 8 word list list) ! 0)
   \<and> (0::nat) < length ([[0x7FFE, 0x8001, 5]] :: 16 word list list)
   \<and> length ''10'' \<le> length (([[0x7FFE, 0x8001, 5]] :: 16 word list list) ! 0)
   \<and> (case fast_embed_pixels ([[0x52, 0xFF, 0x07], map int_of_digit ''10''] :: 8 word list list) (1::nat) (0::nat) of
            (result, h2) \<Rightarrow>
              result = length ([[0x52, 0xFF, 0x07], map int_of_digit ''10''] :: 8 word list list) \<and> take (length ([[0x52, 0xFF, 0x07], map int_of_digit ''10''] :: 8 word list list)) h2 = ([[0x52, 0xFF, 0x07], map int_of_digit ''10''] :: 8 word list list)
              \<and> length (h2 ! result) = length (([[0x52, 0xFF, 0x07], map int_of_digit ''10''] :: 8 word list list) ! (0::nat))
              \<and> (\<forall>i < length ''10''.
                    (h2 ! result ! i) AND 1 = int_of_digit (''10'' ! i)
                  \<and> drop_bit 1 (h2 ! result ! i) = drop_bit 1 (([[0x52, 0xFF, 0x07], map int_of_digit ''10''] :: 8 word list list) ! (0::nat) ! i))
              \<and> (\<forall>j. length ''10'' \<le> j \<and> j < length (([[0x52, 0xFF, 0x07], map int_of_digit ''10''] :: 8 word list list) ! (0::nat))
                    \<longrightarrow> h2 ! result ! j = ([[0x52, 0xFF, 0x07], map int_of_digit ''10''] :: 8 word list list) ! (0::nat) ! j))
   \<and> numpy_major numpy1 < 2
   \<and> (\<exists>g2. embed_samples_loop numpy1 (([[0x7FFE, 0x8001, 5]] :: 16 word list list) @ [([[0x7FFE, 0x8001, 5]] :: 16 word list list) ! (0::nat)]) (length ([[0x7FFE, 0x8001, 5]] :: 16 word list list)) ''10'' 0 (length ''10'') = Inr g2
                      \<and> take (length ([[0x7FFE, 0x8001, 5]] :: 16 word list list)) g2 = ([[0x7FFE, 0x8001, 5]] :: 16 word list list)
                      \<and> length (g2 ! length ([[0x7FFE, 0x8001, 5]] :: 16 word list list)) = length (([[0x7FFE, 0x8001, 5]] :: 16 word list list) ! (0::nat))
                      \<and> (\<forall>i < length ''10''.
                            (g2 ! length ([[0x7FFE, 0x8001, 5]] :: 16 word list list) ! i) AND 1 = int_of_digit (''10'' ! i)
                          \<and> drop_bit 1 (g2 ! length ([[0x7FFE, 0x8001, 5]] :: 16 word list list) ! i) = drop_bit 1 (([[0x7FFE, 0x8001, 5]] :: 16 word list list) ! (0::nat) ! i))
                      \<and> (\<forall>j. length ''10'' \<le> j \<and> j < length (([[0x7FFE, 0x8001, 5]] :: 16 word list list) ! (0::nat))
                            \<longrightarrow> g2 ! length ([[0x7FFE, 0x8001, 5]] :: 16 word list list) ! j = ([[0x7FFE, 0x8001, 5]] :: 16 word list list) ! (0::nat) ! j))
   \<and> 2 \<le> numpy_major numpy2 \<and> ''10'' \<noteq> []
   \<and> embed_samples_loop numpy2 (([[0x7FFE, 0x8001, 5]] :: 16 word list list) @ [([[0x7FFE, 0x8001, 5]] :: 16 word list list) ! (0::nat)]) (length ([[0x7FFE, 0x8001, 5]] :: 16 word list list)) ''10'' 0 (length ''10'') = Inl OverflowError"
proof -
  have 1: "(1::nat) < length ([[0x52, 0xFF, 0x07], map int_of_digit ''10''] :: 8 word list list)" by simp
  have 2: "(0::nat) < length ([[0x52, 0xFF, 0x07], map int_of_digit ''10''] :: 8 word list list)" by simp
  have 3: "([[0x52, 0xFF, 0x07], map int_of_digit ''10''] :: 8 word list list) ! 1 = map int_of_digit ''10''" by simp
  have 4: "length ''10'' \<le> length (([[0x52, 0xFF, 0x07], map int_of_digit ''10''] :: 8 word list list) ! 0)" by simp
  have 5: "(0::nat) < length ([[0x7FFE, 0x8001, 5]] :: 16 word list list)" by simp
  have 6: "length ''10'' \<le> length (([[0x7FFE, 0x8001, 5]] :: 16 word list list) ! 0)" by simp
  note C1 = embed_frame_effect[OF 1 2 3 4 5 6, where rt = numpy1]
  note C2 = embed_frame_effect[OF 1 2 3 4 5 6, where rt = numpy2]
  note A1 = C1[THEN conjunct2, unfolded np_copy_def prod.case, THEN conjunct2, THEN conjunct2,
      THEN mp, OF example_runtime(2)]
  have ne: "''10'' \<noteq> []" by simp
  note A2 = C2[THEN conjunct2, unfolded np_copy_def prod.case, THEN conjunct2, THEN conjunct1,
      THEN mp, OF conjI[OF example_runtime(4) ne]]
  show ?thesis
    by (intro conjI 1 2 3 4 5 6 conjunct1[OF C1] example_runtime(2) A1 example_runtime(4) ne A2)
qed
section \<open>The capacity boundary (C3)\<close>



section \<open>Cutting at the first end marker (C4)\<close>



section \<open>Encryption with a random IV (C6)\<close>

text \<open>
  Claim C6. For a plaintext and a password that are Unicode texts, two calls of
  \<open>encrypt_message\<close> that draw different 16-byte IVs both succeed, give different
  base64 strings, and \<open>decrypt_message\<close> with the same password gives the plaintext back
  from each.
\<close>

theorem encryption_nondeterministic_round_trip:
  assumes "crypto_lib_ok L" "unicode_text P" "unicode_text pw"
    and "length iv1 = 16" "is_bytes iv1" "length iv2 = 16" "is_bytes iv2" "iv1 \<noteq> iv2"
  shows "\<exists>c1 c2. encrypt_message L P pw iv1 = Inr c1 \<and> encrypt_message L P pw iv2 = Inr c2
           \<and> c1 \<noteq> c2
           \<and> decrypt_message L c1 pw = Inr P \<and> decrypt_message L c2 pw = Inr P"
proof -
  from utf8_encode_ok[OF assms(2)] obtain mb where mb: "utf8_encode P = Inr mb" by blast
  from utf8_encode_ok[OF assms(3)] obtain pb where pb: "utf8_encode pw = Inr pb" by blast
  let ?c1 = "b64encode (iv1 @ cbc_encrypt L (sha256 L pb) iv1 (pad mb 16))"
  let ?c2 = "b64encode (iv2 @ cbc_encrypt L (sha256 L pb) iv2 (pad mb 16))"
  note 1 = encrypt_message_ok[OF assms(1) mb pb assms(4,5)]
  note 2 = encrypt_message_ok[OF assms(1) mb pb assms(6,7)]
  have "?c1 \<noteq> ?c2"
    using b64encode_inj_iv[OF encrypted_is_bytes[OF assms(1) mb assms(4,5)]
        encrypted_is_bytes[OF assms(1) mb assms(6,7)]] assms(4,6,8)
    by auto
  then show ?thesis using 1 2 by blast
qed

theorem encryption_nondeterministic_round_trip_witness:
  "crypto_lib_ok toy_lib \<and> unicode_text [72, 73] \<and> unicode_text [112, 119]
   \<and> length (replicate 16 (0::nat)) = 16 \<and> is_bytes (replicate 16 0)
   \<and> length (replicate 16 (1::nat)) = 16 \<and> is_bytes (replicate 16 1)
   \<and> replicate 16 (0::nat) \<noteq> replicate 16 1
   \<and> (\<exists>c1 c2. encrypt_message toy_lib [72, 73] [112, 119] (replicate 16 0) = Inr c1
          \<and> encrypt_message toy_lib [72, 73] [112, 119] (replicate 16 1) = Inr c2
          \<and> c1 \<noteq> c2
          \<and> decrypt_message toy_lib c1 [112, 119] = Inr [72, 73]
          \<and> decrypt_message toy_lib c2 [112, 119] = Inr [72, 73])"
proof -
  have u: "unicode_text [72, 73]" "unicode_text [112, 119]"
    by (simp_all add: unicode_text_def is_surrogate_def)
  have l: "length (replicate 16 (0::nat)) = 16" "length (replicate 16 (1::nat)) = 16" by simp_all
  have b: "is_bytes (replicate 16 0)" "is_bytes (replicate 16 1)"
    unfolding is_bytes_def list_all_length by simp_all
  have n: "replicate 16 (0::nat) \<noteq> replicate 16 1"
  proof
    assume "replicate 16 (0::nat) = replicate 16 1"
    then have "replicate 16 (0::nat) ! 0 = replicate 16 1 ! 0" by (rule arg_cong)
    then show False by simp
  qed
  note T = encryption_nondeterministic_round_trip[OF toy_lib_ok u l(1) b(1) l(2) b(2) n]
  show ?thesis by (intro conjI toy_lib_ok u l b n T)
qed
section \<open>The codec round trip (C7)\<close>

text \<open>
  Claim C7. For every Unicode string \<open>t\<close> the encoder succeeds, writes each UTF-8 byte as
  eight binary digits in order, and the decoder gives \<open>t\<close> back. On every string of binary
  digits the decoder returns a text: it reads the complete groups of eight, decodes their
  bytes strictly and, where that fails, with \<open>errors='ignore'\<close>. A trailing group of fewer
  than eight digits changes nothing.
\<close>

theorem codec_round_trip_and_totality:
  "(unicode_text t \<longrightarrow>
      (\<exists>bs. utf8_encode t = Inr bs \<and> is_bytes bs
          \<and> text_to_binary t = Inr (concat (map format_08b bs))
          \<and> map length (map format_08b bs) = replicate (length bs) 8
          \<and> binary_to_text (concat (map format_08b bs)) = Inr t))
   \<and> (is_bits b \<longrightarrow>
      (\<exists>cs. collect_bytes b = Inr cs
          \<and> binary_to_text b =
              Inr (case utf8_decode_strict cs of Inr u \<Rightarrow> u | Inl e \<Rightarrow> utf8_decode_ignore cs)))
   \<and> (length b mod 8 = 0 \<and> length tail < 8 \<longrightarrow> binary_to_text (b @ tail) = binary_to_text b)"
proof (intro conjI impI)
  assume "unicode_text t"
  then obtain bs where bs: "utf8_encode t = Inr bs" using utf8_encode_ok by blast
  note ib = utf8_encode_is_bytes[OF bs]
  show "\<exists>bs. utf8_encode t = Inr bs \<and> is_bytes bs
          \<and> text_to_binary t = Inr (concat (map format_08b bs))
          \<and> map length (map format_08b bs) = replicate (length bs) 8
          \<and> binary_to_text (concat (map format_08b bs)) = Inr t"
    using bs ib binary_to_text_text_to_binary[OF bs] lengths_format_08b[OF ib] by blast
next
  assume "is_bits b"
  then obtain cs where cs: "collect_bytes b = Inr cs" using collect_bytes_total by blast
  have "binary_to_text b =
      Inr (case utf8_decode_strict cs of Inr u \<Rightarrow> u | Inl e \<Rightarrow> utf8_decode_ignore cs)"
  proof (cases "utf8_decode_strict cs")
    case (Inl e)
    then show ?thesis using binary_to_text_lossy[OF cs Inl] by simp
  next
    case (Inr u)
    then show ?thesis using cs by (simp add: binary_to_text_def)
  qed
  then show "\<exists>cs. collect_bytes b = Inr cs
          \<and> binary_to_text b =
              Inr (case utf8_decode_strict cs of Inr u \<Rightarrow> u | Inl e \<Rightarrow> utf8_decode_ignore cs)"
    using cs by blast
next
  assume "length b mod 8 = 0 \<and> length tail < 8"
  then show "binary_to_text (b @ tail) = binary_to_text b"
    by (simp add: binary_to_text_def collect_bytes_tail)
qed


theorem codec_round_trip_and_totality_witness:
  "unicode_text [72, 73, 8364]
   \<and> text_to_binary [72, 73, 8364] = Inr ''0100100001001001111000101000001010101100''
   \<and> binary_to_text ''0100100001001001111000101000001010101100'' = Inr [72, 73, 8364]
   \<and> is_bits ''1111111101000001''
   \<and> collect_bytes ''1111111101000001'' = Inr [255, 65]
   \<and> utf8_decode_strict [255, 65] = Inl UnicodeDecodeError
   \<and> binary_to_text ''1111111101000001'' = Inr [65]
   \<and> length ''1111111101000001'' mod 8 = 0 \<and> length ''01'' < 8
   \<and> binary_to_text (''1111111101000001'' @ ''01'') = Inr [65]"
proof -
  have u: "unicode_text [72, 73, 8364]"
    by (simp add: unicode_text_def is_surrogate_def)
  have e: "utf8_encode [72, 73, 8364] = Inr [72, 73, 226, 130, 172]"
    by (simp add: utf8_encode_char_def is_surrogate_def)
  have f: "concat (map format_08b [72, 73, 226, 130, 172])
           = ''0100100001001001111000101000001010101100''"
    by (simp add: format_08b_def bin_digits.simps)
  have b: "is_bits ''1111111101000001''" by (simp add: is_bits_def)
  have c: "collect_bytes ''1111111101000001'' = Inr [255, 65]"
    by (simp add: collect_bytes_long collect_bytes_Nil int_base2_def is_bits_def bits_value_def)
  have s: "utf8_decode_strict [255, 65] = Inl UnicodeDecodeError"
    by (simp add: utf8_decode_strict.simps[of "[255, 65]"])
  have i: "utf8_decode_ignore [255, 65] = [65]"
    by (simp add: utf8_decode_ignore.simps[of "[255, 65]"] utf8_decode_ignore.simps[of "[65]"]
          utf8_decode_ignore.simps[of "[]"])
  have l: "length ''1111111101000001'' mod 8 = 0 \<and> length ''01'' < 8" by simp
  note T = codec_round_trip_and_totality[of "[72, 73, 8364]" "''1111111101000001''" "''01''"]
  from T u obtain bs where bs: "utf8_encode [72, 73, 8364] = Inr bs"
      "text_to_binary [72, 73, 8364] = Inr (concat (map format_08b bs))"
      "binary_to_text (concat (map format_08b bs)) = Inr [72, 73, 8364]"
    by blast
  from bs(1) e have "bs = [72, 73, 226, 130, 172]" by simp
  with bs f
  have 1: "text_to_binary [72, 73, 8364] = Inr ''0100100001001001111000101000001010101100''"
    and 2: "binary_to_text ''0100100001001001111000101000001010101100'' = Inr [72, 73, 8364]"
    by simp_all
  from T b obtain cs where cs: "collect_bytes ''1111111101000001'' = Inr cs"
      "binary_to_text ''1111111101000001'' =
         Inr (case utf8_decode_strict cs of Inr u \<Rightarrow> u | Inl e \<Rightarrow> utf8_decode_ignore cs)"
    by blast
  from cs(1) c have "cs = [255, 65]" by simp
  with cs(2) s i have 3: "binary_to_text ''1111111101000001'' = Inr [65]" by simp
  from T l have "binary_to_text (''1111111101000001'' @ ''01'') = binary_to_text ''1111111101000001''"
    by blast
  with 3 have 4: "binary_to_text (''1111111101000001'' @ ''01'') = Inr [65]" by simp
  from u 1 2 b c s 3 l 4 show ?thesis by blast
qed
section \<open>The recommended message length (C9)\<close>

text \<open>
  Claim C9, as stated, fails: for the 100 x 100 RGB image (30000 bits, 3750 characters) the
  report recommends 3700 characters, not 3750 minus the two characters of the marker.
\<close>

theorem recommended_length_counterexample:
  "get_image_capacity example_world ''rgb.png''
     = Inr \<lparr>ic_dimensions = (100, 100), ic_channels = 3, ic_total_pixels = 30000,
            ic_max_bits = 30000, ic_max_characters = 3750,
            ic_recommended_message_length = 3700\<rparr>
   \<and> (3700 :: int) \<noteq> int (30000 div 8) - 2"
  by (simp add: get_image_capacity_def example_open rgb_100x100_def Let_def)

text \<open>
  Claim C9, amended. The recommended message length of both capacity reports is the
  character capacity, the number of embeddable bits divided by 8, minus the constant 50;
  the number of embeddable bits is the number of samples of the carrier.
\<close>

theorem recommended_length_is_capacity_minus_50:
  "(get_image_capacity w p = Inr r \<longrightarrow>
      ic_max_characters r = ic_max_bits r div 8
      \<and> ic_recommended_message_length r = int (ic_max_characters r) - 50
      \<and> (\<forall>a. Image_open w p = Inr a \<and> image_ok a \<longrightarrow> ic_max_bits r = length (pixels a)))
   \<and> (get_audio_capacity w q = Inr s \<longrightarrow>
      ac_max_characters s = ac_max_bits s div 8
      \<and> ac_recommended_message_length s = int (ac_max_characters s) - 50
      \<and> (\<forall>f d. wave_open w q = Inr f \<and> frombuffer_int16 (frames f) = Inr d
            \<longrightarrow> ac_max_bits s = length d))"
proof (intro conjI impI)
  assume "get_image_capacity w p = Inr r"
  then obtain a where a: "Image_open w p = Inr a"
    and r: "r = \<lparr>ic_dimensions = (shape a ! 1, shape a ! 0),
             ic_channels = (if length (shape a) > 2 then shape a ! 2 else 1),
             ic_total_pixels = shape a ! 0 * shape a ! 1 * (if length (shape a) > 2 then shape a ! 2 else 1),
             ic_max_bits = shape a ! 0 * shape a ! 1 * (if length (shape a) > 2 then shape a ! 2 else 1),
             ic_max_characters = (shape a ! 0 * shape a ! 1 * (if length (shape a) > 2 then shape a ! 2 else 1)) div 8,
             ic_recommended_message_length = int ((shape a ! 0 * shape a ! 1 * (if length (shape a) > 2 then shape a ! 2 else 1)) div 8) - 50\<rparr>"
    unfolding get_image_capacity_def Let_def by (auto split: sum.splits)
  show "ic_max_characters r = ic_max_bits r div 8" unfolding r by simp
  show "ic_recommended_message_length r = int (ic_max_characters r) - 50" unfolding r by simp
  show "\<forall>a. Image_open w p = Inr a \<and> image_ok a \<longrightarrow> ic_max_bits r = length (pixels a)"
    using a image_ok_capacity unfolding r by auto
next
  assume "get_audio_capacity w q = Inr s"
  then obtain f d where f: "wave_open w q = Inr f" and d: "frombuffer_int16 (frames f) = Inr d"
    and s: "ac_max_bits s = length d" "ac_max_characters s = length d div 8"
      "ac_recommended_message_length s = int (length d div 8) - 50"
    unfolding get_audio_capacity_def Let_def by (auto split: sum.splits if_splits)
  show "ac_max_characters s = ac_max_bits s div 8" using s by simp
  show "ac_recommended_message_length s = int (ac_max_characters s) - 50" using s by simp
  show "\<forall>f d. wave_open w q = Inr f \<and> frombuffer_int16 (frames f) = Inr d
            \<longrightarrow> ac_max_bits s = length d"
    using f d s by auto
qed

theorem recommended_length_is_capacity_minus_50_witness:
  "(\<exists>r. get_image_capacity example_world ''rgb.png'' = Inr r
        \<and> Image_open example_world ''rgb.png'' = Inr rgb_100x100 \<and> image_ok rgb_100x100
        \<and> ic_max_bits r = 30000 \<and> ic_max_characters r = 3750
        \<and> ic_recommended_message_length r = 3700)
   \<and> (\<exists>s. get_audio_capacity example_world ''exact.wav'' = Inr s
        \<and> wave_open example_world ''exact.wav'' = Inr exact_wave
        \<and> frombuffer_int16 (frames exact_wave) = Inr (replicate 16 (- 1))
        \<and> ac_max_bits s = 16 \<and> ac_max_characters s = 2
        \<and> ac_recommended_message_length s = - 48)"
proof -
  obtain r where r: "get_image_capacity example_world ''rgb.png'' = Inr r"
    by (simp add: get_image_capacity_def example_open Let_def)
  have fr: "framerate (params exact_wave) = 8000"
    by (simp add: exact_wave_def mono_8k_def)
  obtain s where s: "get_audio_capacity example_world ''exact.wav'' = Inr s"
    by (simp add: get_audio_capacity_def example_open example_frames Let_def fr)
  note T = recommended_length_is_capacity_minus_50[where w = example_world
      and p = "''rgb.png''" and r = r and q = "''exact.wav''" and s = s]
  note ti = T[THEN conjunct1, THEN mp, OF r]
  note ta = T[THEN conjunct2, THEN mp, OF s]
  have b: "ic_max_bits r = 30000"
    using ti example_open(3) example_image_ok(3) by (auto simp: rgb_100x100_def)
  have c: "ic_max_characters r = 3750" "ic_recommended_message_length r = 3700"
    using ti b by simp_all
  have b': "ac_max_bits s = 16"
    using ta example_open(5) example_frames(2) by auto
  have c': "ac_max_characters s = 2" "ac_recommended_message_length s = - 48"
    using ta b' by simp_all
  show ?thesis
    using r s b c b' c' example_open(3,5) example_image_ok(3) example_frames(2) by blast
qed
section \<open>The flag the hide operations return (C10)\<close>




end
